theory Spec2Isabelle
  imports Main "HOL-Library.Word" "HOL-Library.Monad_Syntax"
begin

unbundle bit_operations_syntax

section \<open>pamenlarge: machine integers, errors and memory\<close>

text \<open>
  The program is \<^verbatim>\<open>editor/pamenlarge.c\<close>.  An \<^verbatim>\<open>unsigned char\<close> is an 8-bit word.  An
  \<^verbatim>\<open>unsigned int\<close> is a natural number below \<open>2 ^ 32\<close>; every arithmetic result that the
  program stores in one is reduced by \<open>u32\<close>.
\<close>

type_synonym byte = "8 word"

definition u32 :: "nat \<Rightarrow> nat" where
  "u32 n = n mod 2 ^ 32"

text \<open>\<^verbatim>\<open>INT_MAX\<close> of \<^verbatim>\<open>limits.h\<close> for a 32-bit \<^verbatim>\<open>int\<close>.\<close>

definition INT_MAX :: nat where
  "INT_MAX = 2147483647"

text \<open>\<^verbatim>\<open>unsigned int x = <int value>\<close>: conversion of an \<^verbatim>\<open>int\<close> to \<^verbatim>\<open>unsigned int\<close>.\<close>

definition int_to_unsigned :: "int \<Rightarrow> nat" where
  "int_to_unsigned v = nat (v mod 2 ^ 32)"

text \<open>
  The ways the program stops: the three \<^verbatim>\<open>pm_error\<close> calls of the file, the failures of the
  library routines it calls, and behaviour that C leaves undefined (an access outside an
  allocated row, a division by zero, a shift by the operand's width or more).
\<close>

datatype error =
    MissingScaleFactor
  | InvalidScaleFactor string
  | DimensionOverflow nat nat nat nat
  | OpenError
  | FormatError
  | TruncatedInput
  | UndefinedBehaviour

subsection \<open>validateComputableDimensions\<close>

definition MAX_val :: "nat \<Rightarrow> nat \<Rightarrow> nat" where
  "MAX_val a b = (if a > b then a else b)"

definition maxWidthHeight :: nat where
  "maxWidthHeight = INT_MAX - 2"

definition validateComputableDimensions :: "nat \<Rightarrow> nat \<Rightarrow> nat \<Rightarrow> error + unit" where
  "validateComputableDimensions width height scaleFactor =
     (if MAX_val height width = 0 then Inl UndefinedBehaviour
      else
        let maxScaleFactor = maxWidthHeight div MAX_val height width in
        if scaleFactor > maxScaleFactor
        then Inl (DimensionOverflow scaleFactor width height maxScaleFactor)
        else Inr ())"

subsection \<open>Rows in memory\<close>

text \<open>
  A row is a block of bytes reached through a pointer.  The heap maps a pointer to the
  bytes of its block while the block is allocated, and counts the allocations made.  A
  read or a write outside an allocated block has no result (\<open>None\<close>).
\<close>

type_synonym ptr = nat

record heap =
  cells :: "ptr \<Rightarrow> byte list option"
  allocated :: nat

definition rd :: "heap \<Rightarrow> ptr \<Rightarrow> nat \<Rightarrow> byte option" where
  "rd h p i =
     (case cells h p of
        None \<Rightarrow> None
      | Some bs \<Rightarrow> if i < length bs then Some (bs ! i) else None)"

definition wr :: "heap \<Rightarrow> ptr \<Rightarrow> nat \<Rightarrow> byte \<Rightarrow> heap option" where
  "wr h p i v =
     (case cells h p of
        None \<Rightarrow> None
      | Some bs \<Rightarrow>
          if i < length bs then Some (h\<lparr>cells := (cells h)(p \<mapsto> bs[i := v])\<rparr>) else None)"

text \<open>Undefined behaviour as an error value.\<close>

definition ub :: "'a option \<Rightarrow> error + 'a" where
  "ub r = (case r of None \<Rightarrow> Inl UndefinedBehaviour | Some x \<Rightarrow> Inr x)"

text \<open>
  \<^verbatim>\<open>for (i = i0; i < n; ++i) body\<close> over a state, stopping at the first failure.  The
  counter stays below the bound \<open>n\<close>, itself an \<^verbatim>\<open>unsigned int\<close>, so \<^verbatim>\<open>++i\<close> never wraps.
\<close>

function for_loop :: "nat \<Rightarrow> nat \<Rightarrow> (nat \<Rightarrow> 's \<Rightarrow> 'e + 's) \<Rightarrow> 's \<Rightarrow> 'e + 's" where
  "for_loop i n body s =
     (if i < n
      then (case body i s of Inl e \<Rightarrow> Inl e | Inr s' \<Rightarrow> for_loop (Suc i) n body s')
      else Inr s)"
  by pat_completeness auto
termination
  by (relation "measure (\<lambda>(i, n, body, s). n - i)") auto

declare for_loop.simps [simp del]

text \<open>Unsigned subtraction \<^verbatim>\<open>a - b\<close> of two \<^verbatim>\<open>unsigned int\<close> values.\<close>

definition usub :: "nat \<Rightarrow> nat \<Rightarrow> nat" where
  "usub a b = (a + 2 ^ 32 - b) mod 2 ^ 32"

text \<open>Integer promotion of an \<^verbatim>\<open>unsigned char\<close> operand to a 32-bit \<^verbatim>\<open>int\<close>.\<close>

definition promote :: "byte \<Rightarrow> 32 word" where
  "promote b = ucast b"

subsection \<open>enlargePbmRowHorizontally\<close>

definition dbl :: "byte list" where
  "dbl = [0x00, 0x03, 0x0C, 0x0F, 0x30, 0x33, 0x3C, 0x3F,
          0xC0, 0xC3, 0xCC, 0xCF, 0xF0, 0xF3, 0xFC, 0xFF]"

definition trp1 :: "byte list" where
  "trp1 = [0x00, 0x03, 0x1C, 0x1F, 0xE0, 0xE3, 0xFC, 0xFF]"

definition trp2 :: "byte list" where
  "trp2 = [0x00, 0x01, 0x0E, 0x0F, 0x70, 0x71, 0x7E, 0x7F,
           0x80, 0x81, 0x8E, 0x8F, 0xF0, 0xF1, 0xFE, 0xFF]"

definition trp3 :: "byte list" where
  "trp3 = [0x00, 0x07, 0x38, 0x3F, 0xC0, 0xC7, 0xF8, 0xFF]"

definition quin2 :: "byte list" where
  "quin2 = [0x00, 0x01, 0x3E, 0x3F, 0xC0, 0xC1, 0xFE, 0xFF]"

definition quin4 :: "byte list" where
  "quin4 = [0x00, 0x03, 0x7C, 0x7F, 0x80, 0x83, 0xFC, 0xFF]"

definition pair :: "32 word list" where
  "pair = [0x0000, 0x00FF, 0xFF00, 0xFFFF]"

text \<open>The body of the loop of \<^verbatim>\<open>case 2\<close>, for one \<^verbatim>\<open>colChar\<close>.\<close>

definition double_step :: "ptr \<Rightarrow> ptr \<Rightarrow> nat \<Rightarrow> heap \<Rightarrow> error + heap" where
  "double_step inrow outrow colChar h = ub (do {
     b \<leftarrow> rd h inrow colChar;
     h \<leftarrow> wr h outrow (u32 (colChar * 2)) (dbl ! unat (drop_bit 4 (promote b AND 0xF0)));
     b \<leftarrow> rd h inrow colChar;
     wr h outrow (u32 (colChar * 2 + 1)) (dbl ! unat (promote b AND 0x0F))
   })"

text \<open>The body of the loop of \<^verbatim>\<open>case 3\<close>.\<close>

definition triple_step :: "ptr \<Rightarrow> ptr \<Rightarrow> nat \<Rightarrow> heap \<Rightarrow> error + heap" where
  "triple_step inrow outrow colChar h = ub (do {
     b \<leftarrow> rd h inrow colChar;
     h \<leftarrow> wr h outrow (u32 (colChar * 3)) (trp1 ! unat (drop_bit 5 (promote b AND 0xF0)));
     b \<leftarrow> rd h inrow colChar;
     h \<leftarrow> wr h outrow (u32 (colChar * 3 + 1)) (trp2 ! unat (drop_bit 2 (promote b) AND 0x0F));
     b \<leftarrow> rd h inrow colChar;
     wr h outrow (u32 (colChar * 3 + 2)) (trp3 ! unat (promote b AND 0x07))
   })"

text \<open>
  The body of the loop of \<^verbatim>\<open>case 5\<close>.  An entry of \<^verbatim>\<open>pair\<close> is an \<^verbatim>\<open>unsigned int\<close>; storing
  the shifted entry in an \<^verbatim>\<open>unsigned char\<close> keeps its low 8 bits.
\<close>

definition quintuple_step :: "ptr \<Rightarrow> ptr \<Rightarrow> nat \<Rightarrow> heap \<Rightarrow> error + heap" where
  "quintuple_step inrow outrow colChar h = ub (do {
     b \<leftarrow> rd h inrow colChar;
     h \<leftarrow> wr h outrow (u32 (colChar * 5))
            (ucast (drop_bit 5 (pair ! unat (drop_bit 6 (promote b) AND 0x03))));
     b \<leftarrow> rd h inrow colChar;
     h \<leftarrow> wr h outrow (u32 (colChar * 5 + 1)) (quin2 ! unat (drop_bit 4 (promote b) AND 0x07));
     b \<leftarrow> rd h inrow colChar;
     h \<leftarrow> wr h outrow (u32 (colChar * 5 + 2))
            (ucast (drop_bit 4 (pair ! unat (drop_bit 3 (promote b) AND 0x03))));
     b \<leftarrow> rd h inrow colChar;
     h \<leftarrow> wr h outrow (u32 (colChar * 5 + 3)) (quin4 ! unat (drop_bit 1 (promote b) AND 0x07));
     b \<leftarrow> rd h inrow colChar;
     wr h outrow (u32 (colChar * 5 + 4)) (ucast (drop_bit 3 (pair ! unat (promote b AND 0x03))))
   })"

text \<open>
  The general case, for one \<^verbatim>\<open>colChar\<close> of the output row: \<^verbatim>\<open>bit\<close> is the source bit
  position (leftmost is 0) and \<^verbatim>\<open>offset\<close> the number of leading bits of the output byte that
  come from that source bit.
\<close>

definition general_bit :: "nat \<Rightarrow> nat \<Rightarrow> nat" where
  "general_bit mult colChar = u32 ((colChar mod mult) * 8) div mult"

definition general_offset :: "nat \<Rightarrow> nat \<Rightarrow> nat" where
  "general_offset mult colChar = usub mult (u32 ((colChar mod mult) * 8) mod mult)"

text \<open>A right shift of an \<^verbatim>\<open>int\<close> by an \<^verbatim>\<open>unsigned int\<close> count is defined for counts below 32.\<close>

definition shift_right :: "32 word \<Rightarrow> nat \<Rightarrow> 32 word option" where
  "shift_right x n = (if n < 32 then Some (drop_bit n x) else None)"

definition general_step :: "ptr \<Rightarrow> nat \<Rightarrow> ptr \<Rightarrow> nat \<Rightarrow> heap \<Rightarrow> error + heap" where
  "general_step inrow scaleFactor outrow colChar h =
     (let mult = scaleFactor in
      if mult = 0 then Inl UndefinedBehaviour
      else
        let bit_pos = general_bit mult colChar;
            offset = general_offset mult colChar
        in
          if offset \<ge> 8
          then ub (do {
            b \<leftarrow> rd h inrow (colChar div mult);
            x \<leftarrow> shift_right (promote b) (usub 7 bit_pos);
            wr h outrow colChar (ucast ((x AND 0x01) * 0xFF))
          })
          else ub (do {
            b \<leftarrow> rd h inrow (colChar div mult);
            x \<leftarrow> shift_right (promote b) (usub 6 bit_pos);
            wr h outrow colChar (ucast (drop_bit offset (pair ! unat (x AND 0x03))) AND 0xFF)
          }))"

definition enlargePbmRowHorizontally ::
  "ptr \<Rightarrow> nat \<Rightarrow> nat \<Rightarrow> nat \<Rightarrow> ptr \<Rightarrow> heap \<Rightarrow> error + heap" where
  "enlargePbmRowHorizontally inrow inColChars outColChars scaleFactor outrow h =
     (if scaleFactor = 1 then Inr h
      else if scaleFactor = 2 then for_loop 0 inColChars (double_step inrow outrow) h
      else if scaleFactor = 3 then for_loop 0 inColChars (triple_step inrow outrow) h
      else if scaleFactor = 5 then for_loop 0 inColChars (quintuple_step inrow outrow) h
      else for_loop 0 outColChars (general_step inrow scaleFactor outrow) h)"

subsection \<open>The library routines the program calls\<close>

text \<open>
  The image header as \<^verbatim>\<open>struct pam\<close> holds it after \<^verbatim>\<open>pnm_readpaminit\<close>: the dimensions and
  whether \<^verbatim>\<open>PNM_FORMAT_TYPE(format) == PBM_TYPE\<close>.
\<close>

record pam =
  pam_width :: nat
  pam_height :: nat
  pam_is_pbm :: bool

type_synonym tuple = "nat list"

text \<open>
  What has been written to the output file: headers and rows, in order.  A packed row is
  recorded with its width in pixels and the bytes handed to the writer.
\<close>

datatype out_event =
    PbmHeader nat nat
  | PbmRow nat "byte list"
  | PamHeader nat nat
  | PamRow "tuple list"

text \<open>
  The state of a run: the heap, the unread raster of the input file (packed bytes for a
  PBM image, tuples for any other), the tuples of the generic path's input row, and the
  output written so far.
\<close>

record io =
  mem :: heap
  packed_input :: "byte list"
  tuple_input :: "tuple list"
  tuples :: "tuple list"
  ofile :: "out_event list"

text \<open>A failure carries the output written before it.\<close>

type_synonym 'a result = "(error \<times> out_event list) + 'a"

definition fail :: "error \<Rightarrow> io \<Rightarrow> 'a result" where
  "fail e s = Inl (e, ofile s)"

text \<open>
  Modelled from the spec: \<^verbatim>\<open>pbm_packed_bytes\<close>, a macro of \<^verbatim>\<open>pbm.h\<close> that is not part of the
  sources at hand.  A packed row of \<open>cols\<close> pixels takes \<open>ceil (cols / 8)\<close> bytes.
\<close>

definition pbm_packed_bytes :: "nat \<Rightarrow> nat" where
  "pbm_packed_bytes cols = (cols + 7) div 8"

text \<open>
  Modelled from the spec: \<^verbatim>\<open>pbm_allocrow_packed\<close> and \<^verbatim>\<open>pbm_freerow\<close>, the allocation of one
  packed row of \<open>cols\<close> pixels and its release.  The fresh block has
  \<open>pbm_packed_bytes cols\<close> bytes of arbitrary content, given by \<open>junk\<close>.
\<close>

definition pbm_allocrow_packed :: "(ptr \<Rightarrow> nat \<Rightarrow> byte) \<Rightarrow> nat \<Rightarrow> heap \<Rightarrow> ptr \<times> heap" where
  "pbm_allocrow_packed junk cols h =
     (let p = allocated h in
      (p, h\<lparr>cells := (cells h)(p \<mapsto> map (junk p) [0..<pbm_packed_bytes cols]),
            allocated := Suc p\<rparr>))"

definition pbm_freerow :: "ptr \<Rightarrow> heap \<Rightarrow> heap" where
  "pbm_freerow p h = h\<lparr>cells := (cells h)(p := None)\<rparr>"

text \<open>
  Modelled from the spec: \<^verbatim>\<open>pbm_writepbminit\<close> writes the output header,
  \<^verbatim>\<open>pbm_readpbmrow_packed\<close> reads exactly one packed row into the row buffer and fails with
  \<open>TruncatedInput\<close> when the file has fewer bytes left, and \<^verbatim>\<open>pbm_writepbmrow_packed\<close>
  writes one packed row from the row buffer.
\<close>

definition pbm_writepbminit :: "nat \<Rightarrow> nat \<Rightarrow> io \<Rightarrow> io" where
  "pbm_writepbminit cols rows s = s\<lparr>ofile := ofile s @ [PbmHeader cols rows]\<rparr>"

definition pbm_readpbmrow_packed :: "ptr \<Rightarrow> nat \<Rightarrow> io \<Rightarrow> io result" where
  "pbm_readpbmrow_packed packedBits cols s =
     (let n = pbm_packed_bytes cols in
      if length (packed_input s) < n then fail TruncatedInput s
      else
        (case cells (mem s) packedBits of
           None \<Rightarrow> fail UndefinedBehaviour s
         | Some bs \<Rightarrow>
             if length bs < n then fail UndefinedBehaviour s
             else Inr (s\<lparr>mem := (mem s)\<lparr>cells := (cells (mem s))
                                     (packedBits \<mapsto> take n (packed_input s) @ drop n bs)\<rparr>,
                         packed_input := drop n (packed_input s)\<rparr>)))"

definition pbm_writepbmrow_packed :: "ptr \<Rightarrow> nat \<Rightarrow> io \<Rightarrow> io result" where
  "pbm_writepbmrow_packed packedBits cols s =
     (case cells (mem s) packedBits of
        None \<Rightarrow> fail UndefinedBehaviour s
      | Some bs \<Rightarrow>
          if length bs < pbm_packed_bytes cols then fail UndefinedBehaviour s
          else Inr (s\<lparr>ofile := ofile s @ [PbmRow cols (take (pbm_packed_bytes cols) bs)]\<rparr>))"

text \<open>
  Modelled from the spec: \<^verbatim>\<open>pnm_writepaminit\<close> writes the output header, \<^verbatim>\<open>pnm_readpamrow\<close>
  reads exactly one row of tuples into the tuples of the input row, and
  \<^verbatim>\<open>pnm_writepamrowmult\<close> writes one logical row \<open>rptcnt\<close> times.  The row it is given is
  an array of pointers to tuples; it writes the tuples they point to.
\<close>

definition pnm_writepaminit :: "nat \<Rightarrow> nat \<Rightarrow> io \<Rightarrow> io" where
  "pnm_writepaminit cols rows s = s\<lparr>ofile := ofile s @ [PamHeader cols rows]\<rparr>"

definition pnm_readpamrow :: "nat \<Rightarrow> io \<Rightarrow> io result" where
  "pnm_readpamrow cols s =
     (if length (tuple_input s) < cols then fail TruncatedInput s
      else if length (tuples s) < cols then fail UndefinedBehaviour s
      else Inr (s\<lparr>tuples := take cols (tuple_input s) @ drop cols (tuples s),
                  tuple_input := drop cols (tuple_input s)\<rparr>))"

definition pnm_writepamrowmult :: "nat \<Rightarrow> nat list \<Rightarrow> nat \<Rightarrow> io \<Rightarrow> io result" where
  "pnm_writepamrowmult cols tuplerow rptcnt s =
     (if length tuplerow < cols \<or> list_ex (\<lambda>p. p \<ge> length (tuples s)) (take cols tuplerow)
      then fail UndefinedBehaviour s
      else Inr (s\<lparr>ofile := ofile s @
                    replicate rptcnt (PamRow (map (\<lambda>p. tuples s ! p) (take cols tuplerow)))\<rparr>))"

subsection \<open>parseCommandLine\<close>

record cmdlineInfo =
  cmd_inputFilespec :: string
  cmd_scaleFactor :: nat

text \<open>
  \<^verbatim>\<open>atoi\<close> is the C library's; it is a parameter.  Its \<^verbatim>\<open>int\<close> result is stored in the
  \<^verbatim>\<open>unsigned int\<close> field \<^verbatim>\<open>scaleFactor\<close>.
\<close>

definition parseCommandLine :: "(string \<Rightarrow> int) \<Rightarrow> string list \<Rightarrow> error + cmdlineInfo" where
  "parseCommandLine atoi argv =
     (let argc = int (length argv) in
      if argc - 1 < 1 then Inl MissingScaleFactor
      else
        let scaleFactor = int_to_unsigned (atoi (argv ! 1)) in
        if scaleFactor < 1 then Inl (InvalidScaleFactor (argv ! 1))
        else Inr \<lparr>cmd_inputFilespec = (if argc - 1 \<ge> 2 then argv ! 2 else ''-''),
                  cmd_scaleFactor = scaleFactor\<rparr>)"

subsection \<open>makeOutputRowMap\<close>

text \<open>
  The new row is an array of \<open>outpam.width\<close> pointers, of arbitrary content \<open>fresh\<close> when
  allocated; a pointer to a tuple of the input row is the tuple's column.  A write outside
  the array has no result.
\<close>

definition makeOutputRowMap :: "(nat \<Rightarrow> nat) \<Rightarrow> nat \<Rightarrow> nat \<Rightarrow> nat list \<Rightarrow> error + nat list" where
  "makeOutputRowMap fresh outWidth inWidth inTuplerow =
     for_loop 0 inWidth (\<lambda>col newtuplerow.
       let scaleFactor = outWidth div inWidth in
       for_loop 0 scaleFactor (\<lambda>subcol newtuplerow.
         if u32 (col * scaleFactor + subcol) < length newtuplerow \<and> col < length inTuplerow
         then Inr (newtuplerow[u32 (col * scaleFactor + subcol) := inTuplerow ! col])
         else Inl UndefinedBehaviour) newtuplerow) (map fresh [0..<outWidth])"

subsection \<open>enlargePbm\<close>

text \<open>Running a heap operation inside a run.\<close>

definition on_mem :: "(heap \<Rightarrow> error + heap) \<Rightarrow> io \<Rightarrow> io result" where
  "on_mem f s = (case f (mem s) of Inl e \<Rightarrow> fail e s | Inr h \<Rightarrow> Inr (s\<lparr>mem := h\<rparr>))"

text \<open>
  \<^verbatim>\<open>inrow[inColChars-1] >>= n; inrow[inColChars-1] <<= n;\<close> with \<open>n = 8 - width % 8\<close>, an
  \<^verbatim>\<open>int\<close> between 1 and 7 where the program runs it (\<open>width % 8 > 0\<close>).
\<close>

definition clean_final_byte :: "ptr \<Rightarrow> nat \<Rightarrow> nat \<Rightarrow> heap \<Rightarrow> error + heap" where
  "clean_final_byte inrow inColChars width h = ub (do {
     b \<leftarrow> rd h inrow (usub inColChars 1);
     x \<leftarrow> shift_right (promote b) (8 - width mod 8);
     h \<leftarrow> wr h inrow (usub inColChars 1) (ucast x);
     b \<leftarrow> rd h inrow (usub inColChars 1);
     wr h inrow (usub inColChars 1) (ucast (push_bit (8 - width mod 8) (promote b)))
   })"

text \<open>The body of the loop over the input rows.\<close>

definition enlargePbm_row ::
  "pam \<Rightarrow> nat \<Rightarrow> ptr \<Rightarrow> ptr \<Rightarrow> nat \<Rightarrow> nat \<Rightarrow> nat \<Rightarrow> nat \<Rightarrow> io \<Rightarrow> io result" where
  "enlargePbm_row inpam scaleFactor inrow outrow outcols inColChars outColChars row s =
     (case pbm_readpbmrow_packed inrow (pam_width inpam) s of
        Inl e \<Rightarrow> Inl e
      | Inr s \<Rightarrow>
     (case (if pam_width inpam mod 8 > 0
            then on_mem (clean_final_byte inrow inColChars (pam_width inpam)) s
            else Inr s) of
        Inl e \<Rightarrow> Inl e
      | Inr s \<Rightarrow>
     (case on_mem (enlargePbmRowHorizontally inrow inColChars outColChars scaleFactor outrow) s of
        Inl e \<Rightarrow> Inl e
      | Inr s \<Rightarrow>
          for_loop 0 scaleFactor (\<lambda>i. pbm_writepbmrow_packed outrow outcols) s)))"

text \<open>The buffers of \<^verbatim>\<open>enlargePbm\<close>: the input row and the output row.\<close>

definition enlargePbm_rows :: "(ptr \<Rightarrow> nat \<Rightarrow> byte) \<Rightarrow> pam \<Rightarrow> nat \<Rightarrow> heap \<Rightarrow> ptr \<times> ptr \<times> heap" where
  "enlargePbm_rows junk inpam scaleFactor h =
     (let outcols = u32 (pam_width inpam * scaleFactor);
          (inrow, h) = pbm_allocrow_packed junk (pam_width inpam) h
      in if scaleFactor = 1 then (inrow, inrow, h)
         else
           let (outrow, h) = pbm_allocrow_packed junk (u32 (outcols + 32)) h
           in (inrow, outrow, h))"

definition enlargePbm :: "(ptr \<Rightarrow> nat \<Rightarrow> byte) \<Rightarrow> pam \<Rightarrow> nat \<Rightarrow> io \<Rightarrow> io result" where
  "enlargePbm junk inpam scaleFactor s =
     (let outcols = u32 (pam_width inpam * scaleFactor);
          outrows = u32 (pam_height inpam * scaleFactor);
          inColChars = pbm_packed_bytes (pam_width inpam);
          outColChars = pbm_packed_bytes outcols;
          (inrow, outrow, h) = enlargePbm_rows junk inpam scaleFactor (mem s);
          s = pbm_writepbminit outcols outrows (s\<lparr>mem := h\<rparr>)
      in
        (case for_loop 0 (pam_height inpam)
                (enlargePbm_row inpam scaleFactor inrow outrow outcols inColChars outColChars) s of
           Inl e \<Rightarrow> Inl e
         | Inr s \<Rightarrow>
             let h = (if outrow \<noteq> inrow then pbm_freerow outrow (mem s) else mem s)
             in Inr (s\<lparr>mem := pbm_freerow inrow h\<rparr>)))"

subsection \<open>enlargeGeneral\<close>

text \<open>
  \<^verbatim>\<open>pnm_allocpamrow\<close> gives the input row its tuples, of arbitrary content \<open>fresh_tuples\<close>;
  the pointer to the tuple of column \<open>col\<close> is \<open>col\<close>.
\<close>

definition enlargeGeneral ::
  "(nat \<Rightarrow> tuple) \<Rightarrow> (nat \<Rightarrow> nat) \<Rightarrow> pam \<Rightarrow> nat \<Rightarrow> io \<Rightarrow> io result" where
  "enlargeGeneral fresh_tuples fresh_row inpam scaleFactor s =
     (let outWidth = u32 (pam_width inpam * scaleFactor);
          outHeight = u32 (pam_height inpam * scaleFactor);
          s = pnm_writepaminit outWidth outHeight s;
          s = s\<lparr>tuples := map fresh_tuples [0..<pam_width inpam]\<rparr>;
          tuplerow = [0..<pam_width inpam]
      in
        (case makeOutputRowMap fresh_row outWidth (pam_width inpam) tuplerow of
           Inl e \<Rightarrow> fail e s
         | Inr newtuplerow \<Rightarrow>
             for_loop 0 (pam_height inpam) (\<lambda>row s.
               (case pnm_readpamrow (pam_width inpam) s of
                  Inl e \<Rightarrow> Inl e
                | Inr s \<Rightarrow> pnm_writepamrowmult outWidth newtuplerow scaleFactor s)) s))"

subsection \<open>main\<close>

text \<open>
  An input file as \<^verbatim>\<open>pm_openr\<close> and \<^verbatim>\<open>pnm_readpaminit\<close> find it: its header, if it has a
  valid one, and its raster.
\<close>

record pnm_file =
  file_header :: "pam option"
  file_packed :: "byte list"
  file_tuples :: "tuple list"

text \<open>
  The arguments, the files that can be opened by name, and the arbitrary content of fresh
  memory determine a run.  A successful run returns the output written.
\<close>

record world =
  w_atoi :: "string \<Rightarrow> int"
  w_files :: "string \<Rightarrow> pnm_file option"
  w_junk :: "ptr \<Rightarrow> nat \<Rightarrow> byte"
  w_fresh_tuples :: "nat \<Rightarrow> tuple"
  w_fresh_row :: "nat \<Rightarrow> nat"

definition main :: "world \<Rightarrow> string list \<Rightarrow> (out_event list) result" where
  "main w argv =
     (case parseCommandLine (w_atoi w) argv of
        Inl e \<Rightarrow> Inl (e, [])
      | Inr cmdline \<Rightarrow>
     (case w_files w (cmd_inputFilespec cmdline) of
        None \<Rightarrow> Inl (OpenError, [])
      | Some f \<Rightarrow>
     (case file_header f of
        None \<Rightarrow> Inl (FormatError, [])
      | Some inpam \<Rightarrow>
     (case validateComputableDimensions (pam_width inpam) (pam_height inpam)
             (cmd_scaleFactor cmdline) of
        Inl e \<Rightarrow> Inl (e, [])
      | Inr _ \<Rightarrow>
          let s = \<lparr>mem = \<lparr>cells = (\<lambda>p. None), allocated = 0\<rparr>,
                   packed_input = file_packed f, tuple_input = file_tuples f,
                   tuples = [], ofile = []\<rparr>
          in
            (case (if pam_is_pbm inpam
                   then enlargePbm (w_junk w) inpam (cmd_scaleFactor cmdline) s
                   else enlargeGeneral (w_fresh_tuples w) (w_fresh_row w) inpam
                          (cmd_scaleFactor cmdline) s) of
               Inl e \<Rightarrow> Inl e
             | Inr s \<Rightarrow> Inr (ofile s))))))"

section \<open>Definitions for the proofs\<close>

text \<open>The byte that the general case stores for the output byte \<open>k\<close> from the input byte \<open>b\<close>.\<close>

definition general_byte :: "nat \<Rightarrow> nat \<Rightarrow> byte \<Rightarrow> byte" where
  "general_byte f k b =
     (if general_offset f k \<ge> 8
      then ucast ((drop_bit (7 - general_bit f k) (promote b) AND 0x01) * 0xFF)
      else ucast (drop_bit (general_offset f k)
                    (pair ! unat (drop_bit (6 - general_bit f k) (promote b) AND 0x03)))
           AND 0xFF)"

text \<open>
  The byte that the row enlarger stores at position \<open>k\<close> of the group of \<open>f\<close> output bytes
  that one input byte \<open>b\<close> gives.
\<close>

definition out_byte :: "nat \<Rightarrow> nat \<Rightarrow> byte \<Rightarrow> byte" where
  "out_byte f k b =
     (if f = 2 then
        (if k = 0 then dbl ! unat (drop_bit 4 (promote b AND 0xF0))
         else dbl ! unat (promote b AND 0x0F))
      else if f = 3 then
        (if k = 0 then trp1 ! unat (drop_bit 5 (promote b AND 0xF0))
         else if k = 1 then trp2 ! unat (drop_bit 2 (promote b) AND 0x0F)
         else trp3 ! unat (promote b AND 0x07))
      else if f = 5 then
        (if k = 0 then ucast (drop_bit 5 (pair ! unat (drop_bit 6 (promote b) AND 0x03)))
         else if k = 1 then quin2 ! unat (drop_bit 4 (promote b) AND 0x07)
         else if k = 2 then ucast (drop_bit 4 (pair ! unat (drop_bit 3 (promote b) AND 0x03)))
         else if k = 3 then quin4 ! unat (drop_bit 1 (promote b) AND 0x07)
         else ucast (drop_bit 3 (pair ! unat (promote b AND 0x03))))
      else general_byte f k b)"

text \<open>The output row once its first \<open>n\<close> bytes are stored.\<close>

definition stored ::
  "(nat \<Rightarrow> byte \<Rightarrow> byte) \<Rightarrow> nat \<Rightarrow> nat \<Rightarrow> byte list \<Rightarrow> byte list \<Rightarrow> byte list" where
  "stored B f n ib ob =
     map (\<lambda>i. if i < n then B (i mod f) (ib ! (i div f)) else ob ! i) [0..<length ob]"

text \<open>The pixel of column \<open>col\<close> of a packed row: 8 pixels a byte, most significant bit first.\<close>

definition getbit :: "byte list \<Rightarrow> nat \<Rightarrow> bool" where
  "getbit row col = bit (row ! (col div 8)) (7 - col mod 8)"

text \<open>The first \<open>cols\<close> pixels of a packed row.\<close>

definition row_bits :: "nat \<Rightarrow> byte list \<Rightarrow> bool list" where
  "row_bits cols row = map (getbit row) [0..<cols]"

text \<open>
  Naive replication: each element of a list becomes \<open>factor\<close> consecutive elements.  On
  the bits of a row it is the reference for the row enlarger; on the rows of an image it
  is the vertical replication.
\<close>

definition replicate_each :: "nat \<Rightarrow> 'a list \<Rightarrow> 'a list" where
  "replicate_each factor xs = concat (map (replicate factor) xs)"

text \<open>The heap while the output row is being filled.\<close>

definition filled ::
  "heap \<Rightarrow> ptr \<Rightarrow> (nat \<Rightarrow> byte \<Rightarrow> byte) \<Rightarrow> nat \<Rightarrow> nat \<Rightarrow> byte list \<Rightarrow> byte list \<Rightarrow> heap" where
  "filled h outrow B f n ib ob = h\<lparr>cells := (cells h)(outrow \<mapsto> stored B f n ib ob)\<rparr>"

text \<open>The bits of a packed row beyond its width, up to the end of its last byte, are 0.\<close>

definition padding_clear :: "nat \<Rightarrow> byte list \<Rightarrow> bool" where
  "padding_clear cols row = list_all (\<lambda>p. \<not> getbit row p) [cols..<8 * length row]"

section \<open>Dimension validation\<close>

lemma MAX_val_eq_max: "MAX_val a b = max a b"
  by (simp add: MAX_val_def max_def)

text \<open>
  Claim C3.  For a width and a height of at least 1, the validator accepts exactly when
  \<open>scaleFactor * max width height \<le> M\<close> with \<open>M = INT_MAX - 2\<close>; it computes
  \<open>maxScaleFactor = M div max width height\<close> and fails with \<open>DimensionOverflow\<close>, carrying the
  factor, the dimensions and that maximum, exactly when the factor exceeds it.  The factor
  \<open>maxScaleFactor\<close> is accepted and \<open>maxScaleFactor + 1\<close> is rejected.
\<close>

theorem validateComputableDimensions_iff:
  assumes "1 \<le> width" and "1 \<le> height"
  shows "(validateComputableDimensions width height scaleFactor = Inr ()
            \<longleftrightarrow> scaleFactor * max width height \<le> maxWidthHeight)
       \<and> (validateComputableDimensions width height scaleFactor =
            (if scaleFactor > maxWidthHeight div max width height
             then Inl (DimensionOverflow scaleFactor width height
                         (maxWidthHeight div max width height))
             else Inr ()))
       \<and> validateComputableDimensions width height
            (maxWidthHeight div max width height) = Inr ()
       \<and> validateComputableDimensions width height
            (maxWidthHeight div max width height + 1) =
              Inl (DimensionOverflow (maxWidthHeight div max width height + 1) width height
                     (maxWidthHeight div max width height))"
proof -
  define m where "m = max width height"
  from assms have pos: "0 < m"
    by (simp add: m_def max_def)
  have run: "validateComputableDimensions width height f =
               (if f > maxWidthHeight div m
                then Inl (DimensionOverflow f width height (maxWidthHeight div m))
                else Inr ())" for f
    using pos
    by (auto simp add: validateComputableDimensions_def MAX_val_eq_max Let_def max.commute m_def)
  have iff: "\<not> scaleFactor > maxWidthHeight div m \<longleftrightarrow> scaleFactor * m \<le> maxWidthHeight"
    using pos by (simp add: less_eq_div_iff_mult_less_eq not_less)
  have accept: "validateComputableDimensions width height scaleFactor = Inr ()
                  \<longleftrightarrow> scaleFactor * m \<le> maxWidthHeight"
    unfolding run using iff by auto
  show ?thesis
    unfolding m_def [symmetric] using accept run by simp
qed

theorem validateComputableDimensions_iff_witness:
  "(1::nat) \<le> 100000 \<and> (1::nat) \<le> 1
   \<and> validateComputableDimensions 100000 1 21474 = Inr ()
   \<and> 21474 * max 100000 1 \<le> maxWidthHeight
   \<and> maxWidthHeight div max 100000 1 = 21474
   \<and> validateComputableDimensions 100000 1 21475 =
       Inl (DimensionOverflow 21475 100000 1 21474)"
  using validateComputableDimensions_iff [of 100000 1 21474]
  by (simp add: maxWidthHeight_def INT_MAX_def)

section \<open>The bytes the row enlarger stores\<close>

lemma bit_promote: "bit (promote b) n = bit b n"
  by (auto simp add: promote_def bit_ucast_iff dest: bit_imp_le_length)

lemma idx_bit: "bit (unat (drop_bit s (promote b) AND mask m)) k = (k < m \<and> bit b (s + k))"
  by (auto simp add: bit_unsigned_iff bit_and_iff bit_drop_bit_eq bit_mask_iff bit_promote
      dest: bit_imp_le_length)

lemma idx_less: "unat (x AND mask m :: 32 word) < 2 ^ m"
proof -
  have "unat (take_bit m x) = take_bit m (unat x)" by (simp add: unsigned_take_bit_eq)
  then show ?thesis by (simp add: take_bit_eq_mask[symmetric])
qed

lemma table_lookup_bit:
  assumes tab: "\<forall>n \<in> set [0..<2 ^ m]. \<forall>j \<in> set [0..<8]. bit (T ! n) (7 - j) = bit n (g j)"
    and j: "j < 8"
  shows "bit (T ! unat (drop_bit s (promote b) AND mask m) :: byte) (7 - j)
           = (g j < m \<and> bit b (s + g j))"
proof -
  have "unat (drop_bit s (promote b) AND mask m) \<in> set [0..<2 ^ m]"
    using idx_less [of "drop_bit s (promote b)" m] by simp
  moreover have "j \<in> set [0..<8]" using j by simp
  ultimately have "bit (T ! unat (drop_bit s (promote b) AND mask m)) (7 - j)
      = bit (unat (drop_bit s (promote b) AND mask m)) (g j)"
    using tab by blast
  then show ?thesis by (simp add: idx_bit)
qed

lemma masks: "(3::32 word) = mask 2" "(7::32 word) = mask 3" "(15::32 word) = mask 4"
  by (simp_all add: mask_eq_exp_minus_1)

lemma dbl_bit: "\<forall>n \<in> set [0..<2 ^ 4]. \<forall>j \<in> set [0..<8]. bit (dbl ! n) (7 - j) = bit n (3 - j div 2)"
  by code_simp
lemma trp1_bit: "\<forall>n \<in> set [0..<2 ^ 3]. \<forall>j \<in> set [0..<8]. bit (trp1 ! n) (7 - j) = bit n (2 - j div 3)"
  by code_simp
lemma trp2_bit: "\<forall>n \<in> set [0..<2 ^ 4]. \<forall>j \<in> set [0..<8]. bit (trp2 ! n) (7 - j) = bit n (5 - (8 + j) div 3)"
  by code_simp
lemma trp3_bit: "\<forall>n \<in> set [0..<2 ^ 3]. \<forall>j \<in> set [0..<8]. bit (trp3 ! n) (7 - j) = bit n (7 - (16 + j) div 3)"
  by code_simp
lemma quin2_bit: "\<forall>n \<in> set [0..<2 ^ 3]. \<forall>j \<in> set [0..<8]. bit (quin2 ! n) (7 - j) = bit n (3 - (8 + j) div 5)"
  by code_simp
lemma quin4_bit: "\<forall>n \<in> set [0..<2 ^ 3]. \<forall>j \<in> set [0..<8]. bit (quin4 ! n) (7 - j) = bit n (6 - (24 + j) div 5)"
  by code_simp
lemma pair_bit: "\<forall>n \<in> set [0..<2 ^ 2]. \<forall>i \<in> set [0..<32]. bit (pair ! n) i = (if i < 8 then bit n 0 else i < 16 \<and> bit n 1)"
  by code_simp

lemma j_cases: "j < 8 \<Longrightarrow> j = 0 \<or> j = 1 \<or> j = 2 \<or> j = 3 \<or> j = 4 \<or> j = 5 \<or> j = 6 \<or> j = (7::nat)"
  by arith

lemma pair_lookup_bit:
  assumes "j < 8" "ofs < 8"
  shows "bit (ucast (drop_bit ofs (pair ! unat (drop_bit s (promote b) AND mask 2))) :: byte) (7 - j)
           = (if j < ofs then bit b (s + 1) else bit b s)"
proof -
  let ?n = "unat (drop_bit s (promote b) AND mask 2)"
  have n: "?n \<in> set [0..<2 ^ 2]"
    using idx_less [of "drop_bit s (promote b)" 2] by simp
  have i: "7 - j + ofs \<in> set [0..<32]" using assms by simp
  have "bit (pair ! ?n) (7 - j + ofs) = (if 7 - j + ofs < 8 then bit ?n 0 else 7 - j + ofs < 16 \<and> bit ?n 1)"
    using pair_bit n i by blast
  then show ?thesis using assms
    by (auto simp add: bit_ucast_iff bit_drop_bit_eq idx_bit add.commute)
qed

lemma table_lookup_src:
  assumes tab: "\<forall>n \<in> set [0..<2 ^ m]. \<forall>j \<in> set [0..<8]. bit (T ! n) (7 - j) = bit n (g j)"
    and j: "j < 8" and g: "g j < m" and r: "s + g j = r"
  shows "bit (T ! unat (drop_bit s (promote b) AND mask m) :: byte) (7 - j) = bit b r"
  using table_lookup_bit [OF tab j, of s b] g r by simp

lemma pair_lookup_src:
  assumes "j < 8" "ofs < 8" "(if j < ofs then s + 1 else s) = r"
  shows "bit (ucast (drop_bit ofs (pair ! unat (drop_bit s (promote b) AND mask 2))) :: byte) (7 - j)
           = bit b r"
  using pair_lookup_bit [OF assms(1,2), of s b] assms(3) by (simp split: if_splits)

lemma out_byte_2:
  assumes "j < 8" "k < 2"
  shows "bit (out_byte 2 k b) (7 - j) = bit b (7 - (8 * k + j) div 2)"
proof -
  have a: "drop_bit 4 (promote b AND 0xF0) = drop_bit 4 (promote b) AND mask 4"
    by (simp add: masks)
  have b: "promote b AND 0x0F = drop_bit 0 (promote b) AND mask 4"
    by (simp add: masks)
  have k0: "bit (dbl ! unat (drop_bit 4 (promote b) AND mask 4)) (7 - j) = bit b (7 - (8 * 0 + j) div 2)"
    by (rule table_lookup_src [OF dbl_bit assms(1)]) (use assms(1) in arith)+
  have k1: "bit (dbl ! unat (drop_bit 0 (promote b) AND mask 4)) (7 - j) = bit b (7 - (8 * 1 + j) div 2)"
    by (rule table_lookup_src [OF dbl_bit assms(1)]) (use assms(1) in arith)+
  from assms(2) have "k = 0 \<or> k = 1" by arith
  then show ?thesis
    using k0 k1 unfolding out_byte_def a b by auto
qed

lemma out_byte_3:
  assumes "j < 8" "k < 3"
  shows "bit (out_byte 3 k b) (7 - j) = bit b (7 - (8 * k + j) div 3)"
proof -
  have a: "drop_bit 5 (promote b AND 0xF0) = drop_bit 5 (promote b) AND mask 3"
    by (simp add: masks)
  have b: "drop_bit 2 (promote b) AND 0x0F = drop_bit 2 (promote b) AND mask 4"
    by (simp add: masks)
  have c: "promote b AND 0x07 = drop_bit 0 (promote b) AND mask 3"
    by (simp add: masks)
  have k0: "bit (trp1 ! unat (drop_bit 5 (promote b) AND mask 3)) (7 - j) = bit b (7 - (8 * 0 + j) div 3)"
    by (rule table_lookup_src [OF trp1_bit assms(1)]) (use assms(1) in arith)+
  have k1: "bit (trp2 ! unat (drop_bit 2 (promote b) AND mask 4)) (7 - j) = bit b (7 - (8 * 1 + j) div 3)"
    by (rule table_lookup_src [OF trp2_bit assms(1)]) (use assms(1) in arith)+
  have k2: "bit (trp3 ! unat (drop_bit 0 (promote b) AND mask 3)) (7 - j) = bit b (7 - (8 * 2 + j) div 3)"
    by (rule table_lookup_src [OF trp3_bit assms(1)]) (use assms(1) in arith)+
  from assms(2) have "k = 0 \<or> k = 1 \<or> k = 2" by arith
  then show ?thesis
    using k0 k1 k2 unfolding out_byte_def a b c by auto
qed

lemma out_byte_5:
  assumes "j < 8" "k < 5"
  shows "bit (out_byte 5 k b) (7 - j) = bit b (7 - (8 * k + j) div 5)"
proof -
  have a: "drop_bit 6 (promote b) AND 0x03 = drop_bit 6 (promote b) AND mask 2"
    "drop_bit 4 (promote b) AND 0x07 = drop_bit 4 (promote b) AND mask 3"
    "drop_bit 3 (promote b) AND 0x03 = drop_bit 3 (promote b) AND mask 2"
    "drop_bit 1 (promote b) AND 0x07 = drop_bit 1 (promote b) AND mask 3"
    "promote b AND 0x03 = drop_bit 0 (promote b) AND mask 2"
    by (simp_all add: masks)
  have k0: "bit (ucast (drop_bit 5 (pair ! unat (drop_bit 6 (promote b) AND mask 2))) :: byte) (7 - j)
              = bit b (7 - (8 * 0 + j) div 5)"
    by (rule pair_lookup_src [OF assms(1)]) (use assms(1) in arith)+
  have k1: "bit (quin2 ! unat (drop_bit 4 (promote b) AND mask 3)) (7 - j) = bit b (7 - (8 * 1 + j) div 5)"
    by (rule table_lookup_src [OF quin2_bit assms(1)]) (use assms(1) in arith)+
  have k2: "bit (ucast (drop_bit 4 (pair ! unat (drop_bit 3 (promote b) AND mask 2))) :: byte) (7 - j)
              = bit b (7 - (8 * 2 + j) div 5)"
    by (rule pair_lookup_src [OF assms(1)]) (use assms(1) in arith)+
  have k3: "bit (quin4 ! unat (drop_bit 1 (promote b) AND mask 3)) (7 - j) = bit b (7 - (8 * 3 + j) div 5)"
    by (rule table_lookup_src [OF quin4_bit assms(1)]) (use assms(1) in arith)+
  have k4: "bit (ucast (drop_bit 3 (pair ! unat (drop_bit 0 (promote b) AND mask 2))) :: byte) (7 - j)
              = bit b (7 - (8 * 4 + j) div 5)"
    by (rule pair_lookup_src [OF assms(1)]) (use assms(1) in arith)+
  from assms(2) have "k = 0 \<or> k = 1 \<or> k = 2 \<or> k = 3 \<or> k = 4" by arith
  then show ?thesis
    using k0 k1 k2 k3 k4 unfolding out_byte_def a by auto
qed

lemma u32_id: "n < 4294967296 \<Longrightarrow> u32 n = n"
  by (simp add: u32_def)

lemma usub_id:
  assumes "b \<le> a" "a < 4294967296"
  shows "usub a b = a - b"
proof -
  have e: "a + 2 ^ 32 - b = (a - b) + 2 ^ 32" using assms by simp
  have "a - b < 2 ^ 32" using assms by simp
  then show ?thesis unfolding usub_def e by simp
qed

lemma allbits:
  "bit (ucast ((drop_bit s (promote b) AND 0x01) * 0xFF) :: byte) n = (n < 8 \<and> bit b s)"
proof -
  have one_and: "(x AND 1) * (0xFF::32 word) = (if bit x 0 then mask 8 else 0)" for x
    by (simp add: and_one_eq bit_0 mod_2_eq_odd mask_eq_exp_minus_1)
  show ?thesis
    unfolding one_and
    by (auto simp add: bit_ucast_iff bit_mask_iff bit_drop_bit_eq bit_promote)
qed

lemma byte_and_ff: "(x :: byte) AND 0xFF = x"
proof -
  have e: "(0xFF :: byte) = mask 8" by (simp add: mask_eq_exp_minus_1)
  show ?thesis unfolding e by (rule bit_word_eqI) (simp add: bit_and_iff bit_mask_iff)
qed

text \<open>The arithmetic of the general case, for an output byte \<open>k < f\<close> of a group.\<close>

lemma general_bit_bounds:
  assumes pos: "0 < (f::nat)" and k: "k < f"
  defines "q \<equiv> (k * 8) div f" and "r \<equiv> (k * 8) mod f"
  shows "q \<le> 7" and "f - r < 8 \<Longrightarrow> q \<le> 6"
proof -
  have eq: "k * 8 = f * q + r" by (simp add: q_def r_def)
  have r: "r < f" using pos by (simp add: r_def)
  have "f * q \<le> k * 8" using eq by simp
  also have "\<dots> < f * 8" using k by simp
  finally have "q < 8" by simp
  then show q7: "q \<le> 7" by simp
  show "q \<le> 6" if "f - r < 8"
  proof (rule ccontr)
    assume "\<not> q \<le> 6"
    with q7 have "q = 7" by simp
    with eq have "k * 8 = f * 7 + r" by simp
    with that r k show False by arith
  qed
qed

lemma general_div:
  assumes f: "(f::nat) = 4 \<or> 6 \<le> f" and k: "k < f" and j: "j < 8"
  defines "q \<equiv> (k * 8) div f" and "r \<equiv> (k * 8) mod f"
  shows "(8 * k + j) div f = (if j < f - r then q else q + 1)"
proof -
  have pos: "0 < f" using f by arith
  have eq: "k * 8 = f * q + r" by (simp add: q_def r_def)
  have r: "r < f" using pos by (simp add: r_def)
  have r2: "r + j < 2 * f"
  proof -
    consider "f = 4" | "f = 6" | "7 \<le> f" using f by arith
    then show ?thesis
    proof cases
      case 1
      then have "r = 0" by (simp add: r_def)
      with 1 j show ?thesis by simp
    next
      case 2
      have "(k * 8) mod 6 \<le> 4" by presburger
      with 2 j show ?thesis by (simp add: r_def)
    next
      case 3
      with r j show ?thesis by arith
    qed
  qed
  have "8 * k + j = (r + j) + q * f" using eq by (simp add: mult.commute)
  then have "(8 * k + j) div f = ((r + j) + q * f) div f" by (rule arg_cong)
  also have "\<dots> = q + (r + j) div f"
    using pos by simp
  finally have d: "(8 * k + j) div f = (r + j) div f + q" by simp
  show ?thesis
  proof (cases "j < f - r")
    case True
    then have "(r + j) div f = 0" by simp
    with d True show ?thesis by simp
  next
    case False
    then have "f \<le> r + j" using r by arith
    with r2 have "(r + j) div f = 1"
      by (intro div_nat_eqI) simp_all
    with d False show ?thesis by simp
  qed
qed

lemma out_byte_general:
  assumes f: "f = 4 \<or> 6 \<le> f" and k: "k < f" and j: "j < 8"
    and small: "k * 8 < 4294967296" "f < 4294967296"
  shows "bit (out_byte f k b) (7 - j) = bit b (7 - (8 * k + j) div f)"
proof -
  define q where "q = (k * 8) div f"
  define r where "r = (k * 8) mod f"
  have pos: "0 < f" using f by arith
  have r: "r < f" using pos by (simp add: r_def)
  have gb: "general_bit f k = q"
    using k small by (simp add: general_bit_def q_def u32_id)
  have go: "general_offset f k = f - r"
    using k small r by (simp add: general_offset_def r_def u32_id usub_id)
  note bb = general_bit_bounds [OF pos k, folded q_def r_def]
  note dv = general_div [OF f k j, folded q_def r_def]
  have nf: "f \<noteq> 2" "f \<noteq> 3" "f \<noteq> 5" using f by arith+
  show ?thesis
  proof (cases "8 \<le> f - r")
    case True
    then have "j < f - r" using j by simp
    with dv have "(8 * k + j) div f = q" by simp
    moreover have "7 - j < 8" by arith
    ultimately show ?thesis
      using True nf by (simp add: out_byte_def general_byte_def gb go allbits)
  next
    case False
    then have lt: "f - r < 8" by simp
    with bb(2) have q6: "q \<le> 6" by simp
    have m: "(0x03 :: 32 word) = mask 2" by (simp add: mask_eq_exp_minus_1)
    have "bit (ucast (drop_bit (f - r) (pair ! unat (drop_bit (6 - q) (promote b) AND mask 2))) :: byte) (7 - j)
            = bit b (7 - (8 * k + j) div f)"
      by (rule pair_lookup_src [OF j lt]) (use dv q6 in auto)
    then show ?thesis
      using False nf unfolding out_byte_def general_byte_def gb go m byte_and_ff by simp
  qed
qed

section \<open>The loops of the row enlarger\<close>

lemma for_loop_Inr:
  assumes "i \<le> n" and "I i s"
    and step: "\<And>k t. i \<le> k \<Longrightarrow> k < n \<Longrightarrow> I k t \<Longrightarrow> \<exists>t'. body k t = Inr t' \<and> I (Suc k) t'"
  shows "\<exists>t. for_loop i n body s = Inr t \<and> I n t"
  using assms
proof (induction "n - i" arbitrary: i s)
  case 0
  then show ?case by (simp add: for_loop.simps)
next
  case (Suc d)
  then have lt: "i < n" by simp
  from Suc.prems(3) [of i s] lt Suc.prems(2)
  obtain t' where t': "body i s = Inr t'" "I (Suc i) t'" by auto
  have "\<exists>t. for_loop (Suc i) n body t' = Inr t \<and> I n t"
  proof (rule Suc.hyps(1))
    show "d = n - Suc i" using Suc.hyps(2) by simp
    show "Suc i \<le> n" using lt by simp
    show "I (Suc i) t'" by (rule t')
    show "\<And>k t. Suc i \<le> k \<Longrightarrow> k < n \<Longrightarrow> I k t \<Longrightarrow> \<exists>t'. body k t = Inr t' \<and> I (Suc k) t'"
      using Suc.prems(3) by simp
  qed
  then show ?case using lt t' by (subst for_loop.simps) simp
qed

text \<open>A loop whose steps are all known, as a function of the counter.\<close>

lemma for_loop_steps:
  assumes "\<And>k. k < n \<Longrightarrow> body k (g k) = Inr (g (Suc k))"
  shows "for_loop 0 n body (g 0) = Inr (g n)"
proof -
  have "\<exists>t. for_loop 0 n body (g 0) = Inr t \<and> t = g n"
    by (rule for_loop_Inr [where I = "\<lambda>k t. t = g k"]) (use assms in auto)
  then show ?thesis by simp
qed

lemma stored_0: "stored B f 0 ib ob = ob"
  by (simp add: stored_def map_nth)

lemma length_stored [simp]: "length (stored B f n ib ob) = length ob"
  by (simp add: stored_def)

lemma nth_stored:
  "i < length ob \<Longrightarrow>
     stored B f n ib ob ! i = (if i < n then B (i mod f) (ib ! (i div f)) else ob ! i)"
  by (simp add: stored_def)

lemma stored_Suc:
  assumes "n < length ob"
  shows "stored B f (Suc n) ib ob = (stored B f n ib ob)[n := B (n mod f) (ib ! (n div f))]"
proof (rule nth_equalityI)
  show "length (stored B f (Suc n) ib ob)
          = length ((stored B f n ib ob)[n := B (n mod f) (ib ! (n div f))])"
    by simp
next
  fix i assume "i < length (stored B f (Suc n) ib ob)"
  then have i: "i < length ob" by simp
  show "stored B f (Suc n) ib ob ! i = (stored B f n ib ob)[n := B (n mod f) (ib ! (n div f))] ! i"
  proof (cases "i = n")
    case True
    then show ?thesis using i by (simp add: stored_def)
  next
    case False
    then show ?thesis using i by (simp add: stored_def less_Suc_eq)
  qed
qed

lemma filled_0: "cells h outrow = Some ob \<Longrightarrow> filled h outrow B f 0 ib ob = h"
  by (simp add: filled_def stored_0 map_upd_triv)

lemma double_step_filled:
  assumes "cells h inrow = Some ib" "inrow \<noteq> outrow" "c < length ib"
    "c * 2 + 2 \<le> length ob" "length ob < 4294967296"
  shows "double_step inrow outrow c (filled h outrow (out_byte 2) 2 (c * 2) ib ob)
       = Inr (filled h outrow (out_byte 2) 2 (Suc c * 2) ib ob)"
proof -
  have m: "c * 2 mod 2 = 0" "c * 2 div 2 = c" "Suc (c * 2) mod 2 = 1" "Suc (c * 2) div 2 = c"
    by presburger+
  have i: "c * 2 + 1 = Suc (c * 2)"
    by simp_all
  have e: "Suc c * 2 = Suc (Suc (c * 2))" by simp
  have eq: "stored (out_byte 2) 2 (Suc (Suc (c * 2))) ib ob
       = (stored (out_byte 2) 2 (c * 2) ib ob)[c * 2 := out_byte 2 0 (ib ! c), Suc (c * 2) := out_byte 2 1 (ib ! c)]"
    using assms(4) by (simp add: stored_Suc m del: One_nat_def)
  have o: "out_byte 2 0 b = dbl ! unat (drop_bit 4 (promote b AND 0xF0))"
     "out_byte 2 1 b = dbl ! unat (promote b AND 0x0F)" for b
    by (simp_all add: out_byte_def)
  show ?thesis using assms unfolding filled_def e eq o
    by (simp add: double_step_def rd_def wr_def ub_def u32_id i)
qed

lemma triple_step_filled:
  assumes "cells h inrow = Some ib" "inrow \<noteq> outrow" "c < length ib"
    "c * 3 + 3 \<le> length ob" "length ob < 4294967296"
  shows "triple_step inrow outrow c (filled h outrow (out_byte 3) 3 (c * 3) ib ob)
       = Inr (filled h outrow (out_byte 3) 3 (Suc c * 3) ib ob)"
proof -
  have m: "c * 3 mod 3 = 0" "c * 3 div 3 = c" "Suc (c * 3) mod 3 = 1" "Suc (c * 3) div 3 = c" "Suc (Suc (c * 3)) mod 3 = 2" "Suc (Suc (c * 3)) div 3 = c"
    by presburger+
  have i: "c * 3 + 1 = Suc (c * 3)" "c * 3 + 2 = Suc (Suc (c * 3))"
    by simp_all
  have e: "Suc c * 3 = Suc (Suc (Suc (c * 3)))" by simp
  have eq: "stored (out_byte 3) 3 (Suc (Suc (Suc (c * 3)))) ib ob
       = (stored (out_byte 3) 3 (c * 3) ib ob)[c * 3 := out_byte 3 0 (ib ! c), Suc (c * 3) := out_byte 3 1 (ib ! c), Suc (Suc (c * 3)) := out_byte 3 2 (ib ! c)]"
    using assms(4) by (simp add: stored_Suc m del: One_nat_def)
  have o: "out_byte 3 0 b = trp1 ! unat (drop_bit 5 (promote b AND 0xF0))"
     "out_byte 3 1 b = trp2 ! unat (drop_bit 2 (promote b) AND 0x0F)"
     "out_byte 3 2 b = trp3 ! unat (promote b AND 0x07)" for b
    by (simp_all add: out_byte_def)
  show ?thesis using assms unfolding filled_def e eq o
    by (simp add: triple_step_def rd_def wr_def ub_def u32_id i)
qed

lemma quintuple_step_filled:
  assumes "cells h inrow = Some ib" "inrow \<noteq> outrow" "c < length ib"
    "c * 5 + 5 \<le> length ob" "length ob < 4294967296"
  shows "quintuple_step inrow outrow c (filled h outrow (out_byte 5) 5 (c * 5) ib ob)
       = Inr (filled h outrow (out_byte 5) 5 (Suc c * 5) ib ob)"
proof -
  have m: "c * 5 mod 5 = 0" "c * 5 div 5 = c" "Suc (c * 5) mod 5 = 1" "Suc (c * 5) div 5 = c" "Suc (Suc (c * 5)) mod 5 = 2" "Suc (Suc (c * 5)) div 5 = c" "Suc (Suc (Suc (c * 5))) mod 5 = 3" "Suc (Suc (Suc (c * 5))) div 5 = c" "Suc (Suc (Suc (Suc (c * 5)))) mod 5 = 4" "Suc (Suc (Suc (Suc (c * 5)))) div 5 = c"
    by presburger+
  have i: "c * 5 + 1 = Suc (c * 5)" "c * 5 + 2 = Suc (Suc (c * 5))" "c * 5 + 3 = Suc (Suc (Suc (c * 5)))" "c * 5 + 4 = Suc (Suc (Suc (Suc (c * 5))))"
    by simp_all
  have e: "Suc c * 5 = Suc (Suc (Suc (Suc (Suc (c * 5)))))" by simp
  have eq: "stored (out_byte 5) 5 (Suc (Suc (Suc (Suc (Suc (c * 5)))))) ib ob
       = (stored (out_byte 5) 5 (c * 5) ib ob)[c * 5 := out_byte 5 0 (ib ! c), Suc (c * 5) := out_byte 5 1 (ib ! c), Suc (Suc (c * 5)) := out_byte 5 2 (ib ! c), Suc (Suc (Suc (c * 5))) := out_byte 5 3 (ib ! c), Suc (Suc (Suc (Suc (c * 5)))) := out_byte 5 4 (ib ! c)]"
    using assms(4) by (simp add: stored_Suc m del: One_nat_def)
  have o: "out_byte 5 0 b = ucast (drop_bit 5 (pair ! unat (drop_bit 6 (promote b) AND 0x03)))"
     "out_byte 5 1 b = quin2 ! unat (drop_bit 4 (promote b) AND 0x07)"
     "out_byte 5 2 b = ucast (drop_bit 4 (pair ! unat (drop_bit 3 (promote b) AND 0x03)))"
     "out_byte 5 3 b = quin4 ! unat (drop_bit 1 (promote b) AND 0x07)"
     "out_byte 5 4 b = ucast (drop_bit 3 (pair ! unat (promote b AND 0x03)))" for b
    by (simp_all add: out_byte_def)
  show ?thesis using assms unfolding filled_def e eq o
    by (simp add: quintuple_step_def rd_def wr_def ub_def u32_id i)
qed

lemma table_loop:
  assumes step: "\<And>c. c < length ib \<Longrightarrow> c * f + f \<le> length ob \<Longrightarrow>
      body c (filled h outrow B f (c * f) ib ob) = Inr (filled h outrow B f (Suc c * f) ib ob)"
    and "cells h outrow = Some ob" "n \<le> length ib" "n * f \<le> length ob"
  shows "for_loop 0 n body h = Inr (filled h outrow B f (n * f) ib ob)"
proof -
  have "for_loop 0 n body (filled h outrow B f (0 * f) ib ob) = Inr (filled h outrow B f (n * f) ib ob)"
  proof (rule for_loop_steps)
    fix k assume k: "k < n"
    then have "Suc k * f \<le> n * f" by (simp add: Suc_leI mult_le_mono1 del: mult_Suc)
    with assms(4) have "k * f + f \<le> length ob" by simp
    moreover have "k < length ib" using k assms(3) by simp
    ultimately show "body k (filled h outrow B f (k * f) ib ob) = Inr (filled h outrow B f (Suc k * f) ib ob)"
      by (rule step [rotated])
  qed
  then show ?thesis using assms(2) by (simp add: filled_0)
qed

lemma general_step_filled:
  assumes "cells h inrow = Some ib" "inrow \<noteq> outrow" "0 < f"
    "c div f < length ib" "c < length ob" "c * 8 < 4294967296" "f < 4294967296"
  shows "general_step inrow f outrow c (filled h outrow (general_byte f) f c ib ob)
       = Inr (filled h outrow (general_byte f) f (Suc c) ib ob)"
proof -
  define k where "k = c mod f"
  define q where "q = (k * 8) div f"
  define r where "r = (k * 8) mod f"
  have k: "k < f" using assms(3) by (simp add: k_def)
  have "k \<le> c" unfolding k_def by (rule mod_less_eq_dividend)
  then have k8: "k * 8 < 4294967296"
    using assms(6) by arith
  have r: "r < f" using assms(3) by (simp add: r_def)
  have gbm: "general_bit f c = general_bit f k" "general_offset f c = general_offset f k"
    by (simp_all add: general_bit_def general_offset_def k_def)
  have gb: "general_bit f k = q"
    using k8 by (simp add: general_bit_def q_def u32_id k)
  have go: "general_offset f k = f - r"
    using k8 r assms(7) by (simp add: general_offset_def r_def u32_id usub_id k)
  note bb = general_bit_bounds [OF assms(3) k, folded q_def r_def]
  have st: "stored (general_byte f) f (Suc c) ib ob
      = (stored (general_byte f) f c ib ob)[c := general_byte f k (ib ! (c div f))]"
    using assms(5) by (simp add: stored_Suc k_def)
  show ?thesis
  proof (cases "8 \<le> f - r")
    case True
    have u: "usub 7 q = 7 - q" using bb(1) by (simp add: usub_id)
    show ?thesis
      using True assms unfolding filled_def st
      by (simp add: general_step_def Let_def gbm gb go u rd_def wr_def ub_def shift_right_def
            general_byte_def)
  next
    case False
    then have "q \<le> 6" using bb(2) by simp
    then have u: "usub 6 q = 6 - q" by (simp add: usub_id)
    show ?thesis
      using False assms unfolding filled_def st
      by (simp add: general_step_def Let_def gbm gb go u rd_def wr_def ub_def shift_right_def
            general_byte_def)
  qed
qed

lemma general_loop:
  assumes "cells h inrow = Some ib" "cells h outrow = Some ob" "inrow \<noteq> outrow" "0 < f"
    "n \<le> f * length ib" "n \<le> length ob" "n * 8 \<le> 4294967296" "f < 4294967296"
  shows "for_loop 0 n (general_step inrow f outrow) h
       = Inr (filled h outrow (general_byte f) f n ib ob)"
proof -
  have "for_loop 0 n (general_step inrow f outrow) (filled h outrow (general_byte f) f 0 ib ob)
      = Inr (filled h outrow (general_byte f) f n ib ob)"
  proof (rule for_loop_steps)
    fix c assume c: "c < n"
    then have "c < f * length ib" using assms(5) by simp
    then have "c div f < length ib" by (simp add: less_mult_imp_div_less mult.commute)
    moreover have "c < length ob" "c * 8 < 4294967296" using c assms(6,7) by simp_all
    ultimately show "general_step inrow f outrow c (filled h outrow (general_byte f) f c ib ob)
       = Inr (filled h outrow (general_byte f) f (Suc c) ib ob)"
      using assms by (intro general_step_filled) simp_all
  qed
  then show ?thesis using assms(2) by (simp add: filled_0)
qed

lemma length_replicate_each [simp]: "length (replicate_each f bs) = f * length bs"
  by (induction bs) (simp_all add: replicate_each_def)

lemma nth_replicate_each:
  "p < f * length bs \<Longrightarrow> replicate_each f bs ! p = bs ! (p div f)"
proof (induction bs arbitrary: p)
  case Nil
  then show ?case by simp
next
  case (Cons b bs)
  have unf: "replicate_each f (b # bs) = replicate f b @ replicate_each f bs"
    by (simp add: replicate_each_def)
  have pos: "0 < f" using Cons.prems by (cases f) simp_all
  show ?case
  proof (cases "p < f")
    case True
    then show ?thesis by (simp add: unf nth_append)
  next
    case False
    then have ge: "f \<le> p" by simp
    then have "p - f < f * length bs" using Cons.prems by simp
    then have "replicate_each f bs ! (p - f) = bs ! ((p - f) div f)" by (rule Cons.IH)
    moreover have "p div f = Suc ((p - f) div f)" using pos ge by (simp add: le_div_geq)
    ultimately show ?thesis using False by (simp add: unf nth_append)
  qed
qed

lemma getbit_stored:
  assumes B: "\<And>k j b. k < f \<Longrightarrow> j < 8 \<Longrightarrow> k * 8 < 4294967296 \<Longrightarrow>
                bit (B k b) (7 - j) = bit b (7 - (8 * k + j) div f)"
    and pos: "0 < f" and p: "p < 8 * n" and n: "n \<le> length ob" "n * 8 \<le> 4294967296"
  shows "getbit (stored B f n ib ob) p = getbit ib (p div f)"
proof -
  define i where "i = p div 8"
  define j where "j = p mod 8"
  define Q where "Q = i div f"
  define R where "R = i mod f"
  have i: "i < n" using p by (simp add: i_def less_mult_imp_div_less mult.commute)
  have j: "j < 8" by (simp add: j_def)
  have R: "R < f" using pos by (simp add: R_def)
  have "R \<le> i" unfolding R_def by (rule mod_less_eq_dividend)
  then have R8: "R * 8 < 4294967296"
    using i n(2) by arith
  have pe: "p = (8 * R + j) + (8 * Q) * f"
  proof -
    have "p = 8 * i + j" by (simp add: i_def j_def)
    moreover have "i = Q * f + R" by (simp add: Q_def R_def)
    ultimately show ?thesis by (simp add: algebra_simps)
  qed
  define t where "t = (8 * R + j) div f"
  have "p div f = ((8 * R + j) + (8 * Q) * f) div f" using pe by simp
  also have "\<dots> = 8 * Q + t" using pos by (simp add: t_def)
  finally have pf: "p div f = t + Q * 8" by simp
  have "8 * R + j < 8 * f" using R j by arith
  then have t: "t < 8" using pos by (simp add: t_def less_mult_imp_div_less)
  have d: "p div f div 8 = Q" and m: "p div f mod 8 = t"
    using t by (simp_all add: pf)
  have "getbit (stored B f n ib ob) p = bit (B R (ib ! Q)) (7 - j)"
    using i n(1) by (simp add: getbit_def nth_stored i_def [symmetric] j_def [symmetric] Q_def R_def)
  also have "\<dots> = bit (ib ! Q) (7 - t)"
    unfolding t_def by (rule B [OF R j R8])
  also have "\<dots> = getbit ib (p div f)"
    by (simp add: getbit_def d m)
  finally show ?thesis .
qed

lemma packed_bytes_mult: "pbm_packed_bytes (w * f) \<le> f * pbm_packed_bytes w"
proof -
  have "w \<le> 8 * ((w + 7) div 8)" by arith
  then have "w * f \<le> (8 * ((w + 7) div 8)) * f" by (rule mult_le_mono1)
  then have "(w * f + 7) div 8 \<le> (8 * (f * ((w + 7) div 8)) + 7) div 8"
    by (intro div_le_mono) (simp add: algebra_simps)
  also have "\<dots> = f * ((w + 7) div 8)" by arith
  finally show ?thesis by (simp add: pbm_packed_bytes_def)
qed

lemma packed_bytes_8: "8 * pbm_packed_bytes n \<le> n + 7" "n \<le> 8 * pbm_packed_bytes n"
  unfolding pbm_packed_bytes_def by arith+

lemma table_slack:
  "2 * pbm_packed_bytes w \<le> pbm_packed_bytes (w * 2) + 1"
  "3 * pbm_packed_bytes w \<le> pbm_packed_bytes (w * 3) + 2"
  "5 * pbm_packed_bytes w \<le> pbm_packed_bytes (w * 5) + 4"
  unfolding pbm_packed_bytes_def by arith+

lemma packed_bytes_32: "pbm_packed_bytes (n + 32) = pbm_packed_bytes n + 4"
  unfolding pbm_packed_bytes_def by arith

text \<open>The table-driven cases: factors 2, 3 and 5.\<close>

lemma table_row:
  assumes f: "f = 2 \<or> f = 3 \<or> f = 5"
    and h: "cells h inrow = Some ib" "cells h outrow = Some ob" "inrow \<noteq> outrow"
    and len: "n \<le> length ib" "n * f \<le> length ob" "length ob < 4294967296"
  shows "enlargePbmRowHorizontally inrow n m f outrow h
           = Inr (filled h outrow (out_byte f) f (n * f) ib ob)"
proof -
  consider "f = 2" | "f = 3" | "f = 5" using f by auto
  then show ?thesis
  proof cases
    case 1
    have "for_loop 0 n (double_step inrow outrow) h = Inr (filled h outrow (out_byte 2) 2 (n * 2) ib ob)"
    proof (rule table_loop)
      show "double_step inrow outrow c (filled h outrow (out_byte 2) 2 (c * 2) ib ob)
              = Inr (filled h outrow (out_byte 2) 2 (Suc c * 2) ib ob)"
        if "c < length ib" "c * 2 + 2 \<le> length ob" for c
        using h(1,3) that len(3) by (rule double_step_filled)
    qed (use h len 1 in simp_all)
    then show ?thesis using 1 by (simp add: enlargePbmRowHorizontally_def)
  next
    case 2
    have "for_loop 0 n (triple_step inrow outrow) h = Inr (filled h outrow (out_byte 3) 3 (n * 3) ib ob)"
    proof (rule table_loop)
      show "triple_step inrow outrow c (filled h outrow (out_byte 3) 3 (c * 3) ib ob)
              = Inr (filled h outrow (out_byte 3) 3 (Suc c * 3) ib ob)"
        if "c < length ib" "c * 3 + 3 \<le> length ob" for c
        using h(1,3) that len(3) by (rule triple_step_filled)
    qed (use h len 2 in simp_all)
    then show ?thesis using 2 by (simp add: enlargePbmRowHorizontally_def)
  next
    case 3
    have "for_loop 0 n (quintuple_step inrow outrow) h = Inr (filled h outrow (out_byte 5) 5 (n * 5) ib ob)"
    proof (rule table_loop)
      show "quintuple_step inrow outrow c (filled h outrow (out_byte 5) 5 (c * 5) ib ob)
              = Inr (filled h outrow (out_byte 5) 5 (Suc c * 5) ib ob)"
        if "c < length ib" "c * 5 + 5 \<le> length ob" for c
        using h(1,3) that len(3) by (rule quintuple_step_filled)
    qed (use h len 3 in simp_all)
    then show ?thesis using 3 by (simp add: enlargePbmRowHorizontally_def)
  qed
qed

text \<open>The general case: factor 4 and every factor from 6.\<close>

lemma general_row:
  assumes f: "f = 4 \<or> 6 \<le> f"
    and h: "cells h inrow = Some ib" "cells h outrow = Some ob" "inrow \<noteq> outrow"
    and len: "m \<le> f * length ib" "m \<le> length ob" "m * 8 \<le> 4294967296" "f < 4294967296"
  shows "enlargePbmRowHorizontally inrow n m f outrow h
           = Inr (filled h outrow (out_byte f) f m ib ob)"
proof -
  have nf: "f \<noteq> 1" "f \<noteq> 2" "f \<noteq> 3" "f \<noteq> 5" "0 < f" using f by arith+
  have ob: "out_byte f = general_byte f"
    using nf by (intro ext) (simp add: out_byte_def)
  have "for_loop 0 m (general_step inrow f outrow) h = Inr (filled h outrow (general_byte f) f m ib ob)"
    by (rule general_loop) (use h len nf in simp_all)
  then show ?thesis using nf by (simp add: enlargePbmRowHorizontally_def ob)
qed

lemma out_byte_bits:
  assumes "2 \<le> f" "k < f" "j < 8" "k * 8 < 4294967296" "f < 4294967296"
  shows "bit (out_byte f k b) (7 - j) = bit b (7 - (8 * k + j) div f)"
proof -
  consider "f = 2" | "f = 3" | "f = 5" | "f = 4 \<or> 6 \<le> f" using assms(1) by arith
  then show ?thesis
  proof cases
    case 1 then show ?thesis using assms by (simp add: out_byte_2)
  next
    case 2 then show ?thesis using assms by (simp add: out_byte_3)
  next
    case 3 then show ?thesis using assms by (simp add: out_byte_5)
  next
    case 4 then show ?thesis using assms by (simp add: out_byte_general)
  qed
qed

lemma getbit_filled_row:
  assumes "2 \<le> f" "f < 4294967296" "p < 8 * n" "n \<le> length ob" "n * 8 \<le> 4294967296"
  shows "getbit (stored (out_byte f) f n ib ob) p = getbit ib (p div f)"
  by (rule getbit_stored [OF out_byte_bits]) (use assms in simp_all)

lemma row_bits_replicate:
  assumes "\<And>p. p < w * f \<Longrightarrow> getbit ob' p = getbit ib (p div f)"
  shows "row_bits (w * f) ob' = replicate_each f (row_bits w ib)"
proof (rule nth_equalityI)
  show "length (row_bits (w * f) ob') = length (replicate_each f (row_bits w ib))"
    by (simp add: row_bits_def)
next
  fix p assume "p < length (row_bits (w * f) ob')"
  then have p: "p < w * f" by (simp add: row_bits_def)
  then have d: "p div f < w" by (simp add: less_mult_imp_div_less)
  have "replicate_each f (row_bits w ib) ! p = row_bits w ib ! (p div f)"
    by (rule nth_replicate_each) (use p in \<open>simp add: row_bits_def mult.commute\<close>)
  then show "row_bits (w * f) ob' ! p = replicate_each f (row_bits w ib) ! p"
    using p d assms by (simp add: row_bits_def)
qed

lemma replicate_each_1: "replicate_each 1 bs = bs"
  by (induction bs) (simp_all add: replicate_each_def)

lemma padding_clearD:
  "padding_clear w ib \<Longrightarrow> w \<le> p \<Longrightarrow> p < 8 * length ib \<Longrightarrow> \<not> getbit ib p"
  by (simp add: padding_clear_def list_all_iff)

section \<open>The enlarged row\<close>

lemma general_bit_le:
  assumes "0 < f" "c * 8 < 4294967296" "f < 4294967296"
  shows "general_bit f c \<le> 7" and "general_offset f c < 8 \<Longrightarrow> general_bit f c \<le> 6"
proof -
  define k where "k = c mod f"
  have k: "k < f" using assms(1) by (simp add: k_def)
  have "k \<le> c" unfolding k_def by (rule mod_less_eq_dividend)
  then have k8: "k * 8 < 4294967296" using assms(2) by arith
  have r: "(k * 8) mod f < f" using assms(1) by simp
  have gb: "general_bit f c = (k * 8) div f"
    using k8 by (simp add: general_bit_def u32_id k_def)
  have go: "general_offset f c = f - (k * 8) mod f"
    using k8 r assms(3) by (simp add: general_offset_def u32_id usub_id k_def)
  show "general_bit f c \<le> 7"
    unfolding gb by (rule general_bit_bounds(1) [OF assms(1) k])
  show "general_bit f c \<le> 6" if "general_offset f c < 8"
    unfolding gb by (rule general_bit_bounds(2) [OF assms(1) k]) (use that go in simp)
qed

lemma validated_bounds:
  assumes "1 \<le> w" "w * f \<le> maxWidthHeight"
  shows "f < 4294967296" "w * f < 4294967296" "pbm_packed_bytes (w * f) * 8 \<le> 4294967296"
    "pbm_packed_bytes (w * f + 32) < 4294967296"
proof -
  have "f \<le> w * f" using assms(1) by (cases w) simp_all
  moreover have "w * f \<le> 2147483645" using assms(2) by (simp add: maxWidthHeight_def INT_MAX_def)
  ultimately show "f < 4294967296" by arith
  show "w * f < 4294967296" using assms(2) by (simp add: maxWidthHeight_def INT_MAX_def)
  have "8 * pbm_packed_bytes (w * f) \<le> w * f + 7" by (rule packed_bytes_8)
  with assms(2) show "pbm_packed_bytes (w * f) * 8 \<le> 4294967296"
    by (simp add: maxWidthHeight_def INT_MAX_def)
  have "8 * pbm_packed_bytes (w * f + 32) \<le> w * f + 32 + 7" by (rule packed_bytes_8)
  with assms(2) show "pbm_packed_bytes (w * f + 32) < 4294967296"
    by (simp add: maxWidthHeight_def INT_MAX_def)
qed

text \<open>
  Claim C1.  For every scale factor other than 1, 2, 3 and 5 (so 4, 6, 7 and up) that the
  dimension validator accepts for the width, and every packed input row whose padding bits
  are 0, the row enlarger runs the general case without fault, and all the bits of the
  output bytes below \<open>ceil (width * factor / 8)\<close> are those of the naive replication, each
  input bit repeated \<open>factor\<close> times, most significant bit first, followed by zero bits
  up to the end of the last byte.
\<close>

theorem general_path_refines_naive:
  assumes f: "1 \<le> f" "f \<noteq> 1" "f \<noteq> 2" "f \<noteq> 3" "f \<noteq> 5"
    and w: "1 \<le> w" "w * f \<le> maxWidthHeight"
    and h: "cells h inrow = Some ib" "length ib = pbm_packed_bytes w"
      "cells h outrow = Some ob" "pbm_packed_bytes (w * f) \<le> length ob" "inrow \<noteq> outrow"
    and pad: "padding_clear w ib"
  shows "\<exists>h' ob'.
           enlargePbmRowHorizontally inrow (pbm_packed_bytes w) (pbm_packed_bytes (w * f)) f outrow h
             = Inr h'
         \<and> cells h' outrow = Some ob'
         \<and> row_bits (8 * pbm_packed_bytes (w * f)) ob'
             = replicate_each f (row_bits w ib)
               @ replicate (8 * pbm_packed_bytes (w * f) - w * f) False"
proof -
  define m where "m = pbm_packed_bytes (w * f)"
  define ob' where "ob' = stored (out_byte f) f m ib ob"
  have f46: "f = 4 \<or> 6 \<le> f" using f by arith
  note vb = validated_bounds [OF w]
  have mlen: "m \<le> f * length ib" unfolding m_def h(2) by (rule packed_bytes_mult)
  have run: "enlargePbmRowHorizontally inrow (pbm_packed_bytes w) m f outrow h
           = Inr (filled h outrow (out_byte f) f m ib ob)"
    by (rule general_row [OF f46 h(1,3,5) mlen]) (use h(4) vb in \<open>simp_all add: m_def\<close>)
  have wf: "w * f \<le> 8 * m" unfolding m_def by (rule packed_bytes_8)
  have f2: "2 \<le> f" using f46 by arith
  have gb: "getbit ob' p = getbit ib (p div f)" if "p < 8 * m" for p
    unfolding ob'_def
    by (rule getbit_filled_row) (use f2 vb that h(4) in \<open>simp_all add: m_def\<close>)
  have bits: "row_bits (8 * m) ob' = replicate_each f (row_bits w ib) @ replicate (8 * m - w * f) False"
  proof (rule nth_equalityI)
    show "length (row_bits (8 * m) ob')
        = length (replicate_each f (row_bits w ib) @ replicate (8 * m - w * f) False)"
      using wf by (simp add: row_bits_def mult.commute)
  next
    fix p assume "p < length (row_bits (8 * m) ob')"
    then have p: "p < 8 * m" by (simp add: row_bits_def)
    show "row_bits (8 * m) ob' ! p
        = (replicate_each f (row_bits w ib) @ replicate (8 * m - w * f) False) ! p"
    proof (cases "p < w * f")
      case True
      then have d: "p div f < w" by (simp add: less_mult_imp_div_less)
      have "replicate_each f (row_bits w ib) ! p = row_bits w ib ! (p div f)"
        by (rule nth_replicate_each) (use True in \<open>simp add: row_bits_def mult.commute\<close>)
      then show ?thesis using True p d gb
        by (simp add: nth_append row_bits_def mult.commute)
    next
      case False
      then have "w * f \<le> p" by simp
      then have "(w * f) div f \<le> p div f" by (rule div_le_mono)
      moreover have "f \<noteq> 0" using f46 by arith
      ultimately have lo: "w \<le> p div f" by simp
      have "p < (8 * length ib) * f" using p mlen by (simp add: mult.commute)
      then have hi: "p div f < 8 * length ib" by (rule less_mult_imp_div_less)
      have "\<not> getbit ib (p div f)" using pad lo hi by (rule padding_clearD)
      then show ?thesis using False p gb
        by (simp add: nth_append row_bits_def mult.commute)
    qed
  qed
  show ?thesis
    using run bits unfolding m_def [symmetric]
    by (intro exI [of _ "filled h outrow (out_byte f) f m ib ob"] exI [of _ ob'])
       (simp add: filled_def ob'_def)
qed

theorem general_path_refines_naive_witness:
  "(1::nat) \<le> 4 \<and> (1::nat) \<le> 3 \<and> 3 * 4 \<le> maxWidthHeight
   \<and> length [0xA0 :: byte] = pbm_packed_bytes 3
   \<and> pbm_packed_bytes (3 * 4) \<le> length [0, 0 :: byte]
   \<and> padding_clear 3 [0xA0]
   \<and> (\<exists>h' ob'.
         enlargePbmRowHorizontally 0 (pbm_packed_bytes 3) (pbm_packed_bytes (3 * 4)) 4 1
           \<lparr>cells = Map.empty(0 \<mapsto> [0xA0], 1 \<mapsto> [0, 0]), allocated = 2\<rparr> = Inr h'
       \<and> cells h' 1 = Some ob'
       \<and> row_bits (8 * pbm_packed_bytes (3 * 4)) ob'
           = replicate_each 4 (row_bits 3 [0xA0])
             @ replicate (8 * pbm_packed_bytes (3 * 4) - 3 * 4) False)"
proof -
  have pad: "padding_clear 3 [0xA0]" by code_simp
  have pb: "pbm_packed_bytes 3 = 1" "pbm_packed_bytes (3 * 4) = 2"
    by (simp_all add: pbm_packed_bytes_def)
  have m: "3 * 4 \<le> maxWidthHeight" by (simp add: maxWidthHeight_def INT_MAX_def)
  show ?thesis
    using general_path_refines_naive [of 4 3
        "\<lparr>cells = Map.empty(0 \<mapsto> [0xA0], 1 \<mapsto> [0, 0]), allocated = 2\<rparr>" 0 "[0xA0]" 1 "[0, 0]"]
      pad m
    by (simp add: pbm_packed_bytes_def)
qed


text \<open>
  The row enlarger as \<^verbatim>\<open>enlargePbm\<close> calls it, for any factor: on the input row itself for
  factor 1, on a separate row of \<open>width * factor + 32\<close> pixels otherwise.  It changes the
  output row only, and the first \<open>width * factor\<close> bits of the result are the naive
  replication of the input bits.
\<close>

lemma enlarge_row:
  assumes f: "1 \<le> f"
    and w: "1 \<le> w" "w * f \<le> maxWidthHeight"
    and h: "cells h inrow = Some ib" "length ib = pbm_packed_bytes w" "cells h outrow = Some ob"
    and buf: "if f = 1 then outrow = inrow
              else outrow \<noteq> inrow \<and> length ob = pbm_packed_bytes (w * f + 32)"
  shows "\<exists>ob'.
           enlargePbmRowHorizontally inrow (pbm_packed_bytes w) (pbm_packed_bytes (w * f)) f outrow h
             = Inr (h\<lparr>cells := (cells h)(outrow \<mapsto> ob')\<rparr>)
         \<and> length ob' = length ob
         \<and> row_bits (w * f) ob' = replicate_each f (row_bits w ib)"
proof (cases "f = 1")
  case True
  then have "ob = ib" using buf h by simp
  then show ?thesis using True h
    by (intro exI [of _ ib])
       (simp add: enlargePbmRowHorizontally_def replicate_each_1 map_upd_triv del: One_nat_def)
next
  case False
  then have f2: "2 \<le> f" and ne: "inrow \<noteq> outrow"
    and len: "length ob = pbm_packed_bytes (w * f) + 4"
    using f buf by (auto simp add: packed_bytes_32)
  note vb = validated_bounds [OF w]
  define n where "n = pbm_packed_bytes w"
  define m where "m = pbm_packed_bytes (w * f)"
  have lob: "length ob < 4294967296" using vb(4) len by (simp add: packed_bytes_32)
  have m8: "8 * m \<le> w * f + 7" and wf: "w * f \<le> 8 * m"
    unfolding m_def by (rule packed_bytes_8)+
  have w8: "w \<le> 8 * n" unfolding n_def by (rule packed_bytes_8)
  have "\<exists>N. enlargePbmRowHorizontally inrow n m f outrow h
               = Inr (filled h outrow (out_byte f) f N ib ob)
           \<and> w * f \<le> 8 * N \<and> N \<le> length ob"
  proof (cases "f = 4 \<or> 6 \<le> f")
    case True
    have "m \<le> f * length ib" unfolding m_def h(2) by (rule packed_bytes_mult)
    then have "enlargePbmRowHorizontally inrow n m f outrow h
           = Inr (filled h outrow (out_byte f) f m ib ob)"
      by (intro general_row) (use True h ne len vb in \<open>simp_all add: m_def\<close>)
    then show ?thesis using wf len by (auto simp add: m_def)
  next
    case f4: False
    then have f235: "f = 2 \<or> f = 3 \<or> f = 5" using f False by arith
    have nf: "n * f \<le> m + 4"
      using f235 table_slack [of w] by (auto simp add: n_def m_def mult.commute)
    have "enlargePbmRowHorizontally inrow n m f outrow h
           = Inr (filled h outrow (out_byte f) f (n * f) ib ob)"
      by (rule table_row [OF f235 h(1,3) ne]) (use h(2) nf len lob in \<open>simp_all add: n_def m_def\<close>)
    moreover have "w * f \<le> 8 * (n * f)" using w8 by simp
    ultimately show ?thesis using nf len by (auto simp add: m_def)
  qed
  then obtain N where run: "enlargePbmRowHorizontally inrow n m f outrow h
               = Inr (filled h outrow (out_byte f) f N ib ob)"
    and N: "w * f \<le> 8 * N" "N \<le> length ob"
    by blast
  have N8: "N * 8 \<le> 4294967296"
    using N(2) len m8 w(2) by (simp add: m_def maxWidthHeight_def INT_MAX_def)
  have "row_bits (w * f) (stored (out_byte f) f N ib ob) = replicate_each f (row_bits w ib)"
  proof (rule row_bits_replicate)
    fix p assume "p < w * f"
    then have "p < 8 * N" using N(1) by simp
    then show "getbit (stored (out_byte f) f N ib ob) p = getbit ib (p div f)"
      using f2 vb(1) N(2) N8 by (intro getbit_filled_row)
  qed
  then show ?thesis
    using run unfolding n_def m_def
    by (intro exI [of _ "stored (out_byte f) f N ib ob"]) (simp add: filled_def)
qed

text \<open>
  Claim C2.  For every scale factor among 1, 2, 3, 4 and 5, every width of at least 1 that
  the dimension validator accepts with it, and every packed input row, the row enlarger
  called as \<^verbatim>\<open>enlargePbm\<close> calls it (on the input row itself for factor 1, on a separate row
  of \<open>width * factor + 32\<close> pixels otherwise) runs without fault, and the first
  \<open>width * factor\<close> bits of the output row are those of the naive replication of the
  \<open>width\<close> bits of the input row.
\<close>

theorem dispatched_path_refines_naive:
  assumes f: "f = 1 \<or> f = 2 \<or> f = 3 \<or> f = 4 \<or> f = 5"
    and w: "1 \<le> w" "w * f \<le> maxWidthHeight"
    and h: "cells h inrow = Some ib" "length ib = pbm_packed_bytes w" "cells h outrow = Some ob"
    and buf: "if f = 1 then outrow = inrow
              else outrow \<noteq> inrow \<and> length ob = pbm_packed_bytes (w * f + 32)"
  shows "\<exists>h' ob'.
           enlargePbmRowHorizontally inrow (pbm_packed_bytes w) (pbm_packed_bytes (w * f)) f outrow h
             = Inr h'
         \<and> cells h' outrow = Some ob'
         \<and> row_bits (w * f) ob' = replicate_each f (row_bits w ib)"
proof -
  have "1 \<le> f" using f by auto
  from enlarge_row [OF this w h buf] obtain ob' where
    "enlargePbmRowHorizontally inrow (pbm_packed_bytes w) (pbm_packed_bytes (w * f)) f outrow h
       = Inr (h\<lparr>cells := (cells h)(outrow \<mapsto> ob')\<rparr>)"
    "row_bits (w * f) ob' = replicate_each f (row_bits w ib)"
    by blast
  then show ?thesis by simp
qed

theorem dispatched_path_refines_naive_witness:
  "(1::nat) \<le> 11 \<and> 11 * 3 \<le> maxWidthHeight
   \<and> length [0xB5, 0x60 :: byte] = pbm_packed_bytes 11
   \<and> length [1, 2, 3, 4, 5, 6, 7, 8, 9 :: byte] = pbm_packed_bytes (11 * 3 + 32)
   \<and> (\<exists>h' ob'.
         enlargePbmRowHorizontally 0 (pbm_packed_bytes 11) (pbm_packed_bytes (11 * 3)) 3 1
           \<lparr>cells = Map.empty(0 \<mapsto> [0xB5, 0x60], 1 \<mapsto> [1, 2, 3, 4, 5, 6, 7, 8, 9]),
            allocated = 2\<rparr> = Inr h'
       \<and> cells h' 1 = Some ob'
       \<and> row_bits (11 * 3) ob' = replicate_each 3 (row_bits 11 [0xB5, 0x60]))"
proof -
  have pb: "pbm_packed_bytes 11 = 2" "pbm_packed_bytes (11 * 3) = 5" "pbm_packed_bytes (11 * 3 + 32) = 9"
    by (simp_all add: pbm_packed_bytes_def)
  have m: "11 * 3 \<le> maxWidthHeight" by (simp add: maxWidthHeight_def INT_MAX_def)
  show ?thesis
    using dispatched_path_refines_naive [of 3 11
        "\<lparr>cells = Map.empty(0 \<mapsto> [0xB5, 0x60], 1 \<mapsto> [1, 2, 3, 4, 5, 6, 7, 8, 9]), allocated = 2\<rparr>"
        0 "[0xB5, 0x60]" 1 "[1, 2, 3, 4, 5, 6, 7, 8, 9]"] m
    by (simp add: pbm_packed_bytes_def)
qed


text \<open>
  Claim C10.  For every scale factor of at least 2 and every width of at least 1 that the
  validator accepts, the loop of the general case runs without fault on an input row of
  \<open>ceil (width / 8)\<close> bytes and an output row of exactly \<open>ceil (width * factor / 8)\<close>
  bytes, with no slack: every read and write is inside its row and every shift count is
  below the operand's width.  For each output byte \<open>c\<close> it reads the input byte
  \<open>c div factor\<close>, which is below \<open>ceil (width / 8)\<close>; the source bit position is at
  most 7, and at most 6 when two source bits are used.
\<close>

theorem general_path_in_bounds:
  assumes f: "2 \<le> f" and w: "1 \<le> w" "w * f \<le> maxWidthHeight"
    and h: "cells h inrow = Some ib" "length ib = pbm_packed_bytes w"
      "cells h outrow = Some ob" "length ob = pbm_packed_bytes (w * f)" "inrow \<noteq> outrow"
  shows "(\<exists>h'. for_loop 0 (pbm_packed_bytes (w * f)) (general_step inrow f outrow) h = Inr h')
       \<and> (f \<noteq> 2 \<and> f \<noteq> 3 \<and> f \<noteq> 5 \<longrightarrow>
            (\<exists>h'. enlargePbmRowHorizontally inrow (pbm_packed_bytes w)
                     (pbm_packed_bytes (w * f)) f outrow h = Inr h'))
       \<and> (\<forall>c < pbm_packed_bytes (w * f).
             c div f < pbm_packed_bytes w
           \<and> general_bit f c \<le> 7
           \<and> (general_offset f c < 8 \<longrightarrow> general_bit f c \<le> 6))"
proof -
  define m where "m = pbm_packed_bytes (w * f)"
  note vb = validated_bounds [OF w]
  have pos: "0 < f" using f by simp
  have mlen: "m \<le> f * length ib" unfolding m_def h(2) by (rule packed_bytes_mult)
  have loop: "for_loop 0 m (general_step inrow f outrow) h
                = Inr (filled h outrow (general_byte f) f m ib ob)"
    by (rule general_loop [OF h(1,3,5) pos mlen]) (use h(4) vb in \<open>simp_all add: m_def\<close>)
  have disp: "enlargePbmRowHorizontally inrow n m f outrow h
                = for_loop 0 m (general_step inrow f outrow) h"
    if "f \<noteq> 2 \<and> f \<noteq> 3 \<and> f \<noteq> 5" for n
    using that f by (simp add: enlargePbmRowHorizontally_def)
  have each: "c div f < pbm_packed_bytes w \<and> general_bit f c \<le> 7
              \<and> (general_offset f c < 8 \<longrightarrow> general_bit f c \<le> 6)" if "c < m" for c
  proof -
    have "c < length ib * f" using that mlen by (simp add: mult.commute)
    then have "c div f < length ib" by (rule less_mult_imp_div_less)
    moreover have c8: "c * 8 < 4294967296" using that vb(3) by (simp add: m_def)
    ultimately show ?thesis
      using general_bit_le [OF pos c8 vb(1)] h(2) by simp
  qed
  show ?thesis
    using loop disp each unfolding m_def by simp
qed

theorem general_path_in_bounds_witness:
  "(2::nat) \<le> 7 \<and> (1::nat) \<le> 3 \<and> 3 * 7 \<le> maxWidthHeight
   \<and> pbm_packed_bytes 3 = 1 \<and> pbm_packed_bytes (3 * 7) = 3
   \<and> (\<exists>h'. enlargePbmRowHorizontally 0 1 3 7 1
              \<lparr>cells = Map.empty(0 \<mapsto> [0xA0], 1 \<mapsto> [0, 0, 0]), allocated = 2\<rparr> = Inr h')
   \<and> 2 div 7 < pbm_packed_bytes 3 \<and> general_offset 7 2 < 8 \<and> general_bit 7 2 \<le> 6"
  using general_path_in_bounds [of 7 3 "\<lparr>cells = Map.empty(0 \<mapsto> [0xA0], 1 \<mapsto> [0, 0, 0]), allocated = 2\<rparr>"
      0 "[0xA0]" 1 "[0, 0, 0]"]
  by (simp add: pbm_packed_bytes_def maxWidthHeight_def INT_MAX_def general_offset_def
        general_bit_def u32_def usub_def)

section \<open>Buffer slack, the factor-2 scenario, factor 1 and negative factors\<close>

lemma drop_stored: "drop n (stored B f n ib ob) = drop n ob"
  by (rule nth_equalityI) (simp_all add: nth_stored)

lemma packed_row_bound:
  assumes "w * f \<le> maxWidthHeight"
  shows "pbm_packed_bytes (w * f + 32) < 4294967296"
proof -
  have "8 * pbm_packed_bytes (w * f + 32) \<le> w * f + 32 + 7" by (rule packed_bytes_8)
  with assms show ?thesis by (simp add: maxWidthHeight_def INT_MAX_def)
qed

text \<open>
  Against claim C4 as stated: for a 1-pixel row and factor 5 the exact output length is 1
  byte; an output row with \<open>ceil (5 / 8) + 1 = 2\<close> extra bytes is too short for the bytes the
  table-driven loop writes.
\<close>

theorem table_paths_overrun_counterexample:
  "pbm_packed_bytes (1 * 5) + ((5 + 7) div 8 + 1) = length [0, 0, 0 :: byte]
   \<and> enlargePbmRowHorizontally 0 (pbm_packed_bytes 1) (pbm_packed_bytes (1 * 5)) 5 1
        \<lparr>cells = Map.empty(0 \<mapsto> [0x80], 1 \<mapsto> [0, 0, 0]), allocated = 2\<rparr>
      = Inl UndefinedBehaviour"
  by (simp add: pbm_packed_bytes_def enlargePbmRowHorizontally_def for_loop.simps
        quintuple_step_def rd_def wr_def ub_def u32_def promote_def pair_def quin2_def quin4_def)

text \<open>
  Claim C4, amended.  For every width that the validator accepts and every factor among 2,
  3 and 5, the table-driven loops write only below index \<open>factor * ceil (width / 8)\<close>,
  which is at most \<open>factor - 1\<close> bytes, so at most 4, past the exact packed output length
  \<open>ceil (width * factor / 8)\<close>.  The output row that \<^verbatim>\<open>enlargePbm\<close> allocates, 32 pixels
  (4 bytes) longer than the exact length, contains every byte they write: the loop runs
  without fault and leaves the bytes from that index on as they were.
\<close>

theorem table_paths_overrun:
  assumes f: "f = 2 \<or> f = 3 \<or> f = 5" and w: "w * f \<le> maxWidthHeight"
    and h: "cells h inrow = Some ib" "length ib = pbm_packed_bytes w"
      "cells h outrow = Some ob" "length ob = pbm_packed_bytes (w * f + 32)" "inrow \<noteq> outrow"
  shows "f * pbm_packed_bytes w \<le> pbm_packed_bytes (w * f) + (f - 1)
       \<and> f - 1 \<le> 4
       \<and> length ob = pbm_packed_bytes (w * f) + 4
       \<and> (\<exists>h' ob'.
             enlargePbmRowHorizontally inrow (pbm_packed_bytes w) (pbm_packed_bytes (w * f)) f
               outrow h = Inr h'
           \<and> cells h' outrow = Some ob'
           \<and> length ob' = length ob
           \<and> drop (f * pbm_packed_bytes w) ob' = drop (f * pbm_packed_bytes w) ob)"
proof -
  define n where "n = pbm_packed_bytes w"
  have slack: "f * n \<le> pbm_packed_bytes (w * f) + (f - 1)"
    using f table_slack [of w] by (auto simp add: n_def)
  have f4: "f - 1 \<le> 4" using f by auto
  have len: "length ob = pbm_packed_bytes (w * f) + 4"
    using h(4) by (simp add: packed_bytes_32)
  have lob: "length ob < 4294967296"
    using packed_row_bound [OF w] h(4) by simp
  have "n * f \<le> length ob" using slack f4 len by (simp add: mult.commute)
  then have run: "enlargePbmRowHorizontally inrow n (pbm_packed_bytes (w * f)) f outrow h
           = Inr (filled h outrow (out_byte f) f (n * f) ib ob)"
    by (intro table_row [OF f h(1,3)]) (use h lob in \<open>simp_all add: n_def\<close>)
  show ?thesis
    using slack f4 len run unfolding n_def [symmetric]
    by (simp add: filled_def drop_stored mult.commute)
qed

theorem table_paths_overrun_witness:
  "1 * 5 \<le> maxWidthHeight \<and> length [0x80 :: byte] = pbm_packed_bytes 1
   \<and> length [1, 2, 3, 4, 5 :: byte] = pbm_packed_bytes (1 * 5 + 32)
   \<and> 5 * pbm_packed_bytes 1 = pbm_packed_bytes (1 * 5) + (5 - 1)
   \<and> (\<exists>h' ob'.
         enlargePbmRowHorizontally 0 (pbm_packed_bytes 1) (pbm_packed_bytes (1 * 5)) 5 1
           \<lparr>cells = Map.empty(0 \<mapsto> [0x80], 1 \<mapsto> [1, 2, 3, 4, 5]), allocated = 2\<rparr> = Inr h'
       \<and> cells h' 1 = Some ob'
       \<and> length ob' = length [1, 2, 3, 4, 5 :: byte]
       \<and> drop (5 * pbm_packed_bytes 1) ob' = drop (5 * pbm_packed_bytes 1) [1, 2, 3, 4, 5])"
  using table_paths_overrun [of 5 1
      "\<lparr>cells = Map.empty(0 \<mapsto> [0x80], 1 \<mapsto> [1, 2, 3, 4, 5]), allocated = 2\<rparr>" 0 "[0x80]" 1
      "[1, 2, 3, 4, 5]"]
  by (simp add: pbm_packed_bytes_def maxWidthHeight_def INT_MAX_def)

text \<open>
  Against claim C5 as stated: the row \<open>10110000\<close> enlarged by 2 is not
  \<open>1100110000000000\<close>.
\<close>

theorem enlarge_10110000_by_2_counterexample:
  "enlargePbmRowHorizontally 0 (pbm_packed_bytes 8) (pbm_packed_bytes 16) 2 1
     \<lparr>cells = Map.empty(0 \<mapsto> [0xB0], 1 \<mapsto> [0, 0, 0, 0, 0, 0]), allocated = 2\<rparr>
   = Inr \<lparr>cells = Map.empty(0 \<mapsto> [0xB0], 1 \<mapsto> [0xCF, 0, 0, 0, 0, 0]), allocated = 2\<rparr>
   \<and> row_bits 16 [0xCF, 0, 0, 0, 0, 0]
       \<noteq> [True, True, False, False, True, True, False, False,
          False, False, False, False, False, False, False, False]"
  by (simp add: pbm_packed_bytes_def enlargePbmRowHorizontally_def for_loop.simps
        double_step_def rd_def wr_def ub_def u32_def promote_def dbl_def
        row_bits_def getbit_def upt_rec [of _ "numeral _"])

text \<open>
  Claim C5, amended.  Enlarging the 8-pixel packed row \<open>10110000\<close> by factor 2 gives the
  16-bit row \<open>1100111100000000\<close>: every input bit twice.
\<close>

theorem enlarge_10110000_by_2:
  assumes "cells h inrow = Some [0xB0]" "cells h outrow = Some ob" "2 \<le> length ob"
    "inrow \<noteq> outrow"
  shows "\<exists>h' ob'.
           enlargePbmRowHorizontally inrow (pbm_packed_bytes 8) (pbm_packed_bytes 16) 2 outrow h
             = Inr h'
         \<and> cells h' outrow = Some ob'
         \<and> row_bits 16 ob'
             = [True, True, False, False, True, True, True, True,
                False, False, False, False, False, False, False, False]"
proof -
  have len: "0 < length ob" "Suc 0 < length ob" using assms(3) by arith+
  have run: "enlargePbmRowHorizontally inrow (pbm_packed_bytes 8) (pbm_packed_bytes 16) 2 outrow h
      = Inr (h\<lparr>cells := (cells h)(outrow \<mapsto> ob[0 := 0xCF, 1 := 0])\<rparr>)"
    using assms len
    by (simp add: pbm_packed_bytes_def enlargePbmRowHorizontally_def for_loop.simps
          double_step_def rd_def wr_def ub_def u32_def promote_def dbl_def)
  have bits: "row_bits 16 (ob[0 := 0xCF, 1 := 0])
      = [True, True, False, False, True, True, True, True,
         False, False, False, False, False, False, False, False]"
    using len
    by (simp add: row_bits_def getbit_def upt_rec [of _ "numeral _"] nth_list_update)
  show ?thesis using run bits by simp
qed

theorem enlarge_10110000_by_2_witness:
  "2 \<le> length [7, 7, 7, 7, 7, 7 :: byte]
   \<and> (\<exists>h' ob'.
         enlargePbmRowHorizontally 0 (pbm_packed_bytes 8) (pbm_packed_bytes 16) 2 1
           \<lparr>cells = Map.empty(0 \<mapsto> [0xB0], 1 \<mapsto> [7, 7, 7, 7, 7, 7]), allocated = 2\<rparr> = Inr h'
       \<and> cells h' 1 = Some ob'
       \<and> row_bits 16 ob'
           = [True, True, False, False, True, True, True, True,
              False, False, False, False, False, False, False, False])"
  using enlarge_10110000_by_2 [of
      "\<lparr>cells = Map.empty(0 \<mapsto> [0xB0], 1 \<mapsto> [7, 7, 7, 7, 7, 7]), allocated = 2\<rparr>" 0 1
      "[7, 7, 7, 7, 7, 7]"]
  by simp

text \<open>
  Claim C8.  With factor 1 the row enlarger changes nothing in memory, whatever the rows;
  \<^verbatim>\<open>enlargePbm\<close> makes one allocation only, and its output row is its input row, the same
  pointer.
\<close>

theorem factor_1_is_identity:
  "enlargePbmRowHorizontally inrow inColChars outColChars 1 outrow h = Inr h
   \<and> fst (snd (enlargePbm_rows junk inpam 1 h)) = fst (enlargePbm_rows junk inpam 1 h)
   \<and> allocated (snd (snd (enlargePbm_rows junk inpam 1 h))) = Suc (allocated h)"
  by (simp add: enlargePbmRowHorizontally_def enlargePbm_rows_def pbm_allocrow_packed_def Let_def)

text \<open>
  Claim C9 fails on the code for a negative argument.  \<^verbatim>\<open>atoi\<close> gives \<open>-1\<close> for the argument
  \<^verbatim>\<open>-1\<close>; stored in the \<^verbatim>\<open>unsigned int\<close> field it is 4294967295, which is not below 1, so
  \<^verbatim>\<open>parseCommandLine\<close> accepts it.  The run then opens the input, reads its header and stops
  in the dimension validator with \<open>DimensionOverflow\<close>, not with \<open>InvalidScaleFactor\<close>.
\<close>

theorem negative_scale_factor_not_rejected:
  "parseCommandLine (\<lambda>s. - 1) [''pamenlarge'', ''-1'']
     = Inr \<lparr>cmd_inputFilespec = ''-'', cmd_scaleFactor = 4294967295\<rparr>
   \<and> main \<lparr>w_atoi = (\<lambda>s. - 1),
           w_files = (\<lambda>name. Some \<lparr>file_header = Some \<lparr>pam_width = 1, pam_height = 1,
                                                        pam_is_pbm = True\<rparr>,
                                     file_packed = [0x80], file_tuples = []\<rparr>),
           w_junk = (\<lambda>p i. 0), w_fresh_tuples = (\<lambda>i. []), w_fresh_row = (\<lambda>i. 0)\<rparr>
        [''pamenlarge'', ''-1'']
     = Inl (DimensionOverflow 4294967295 1 1 2147483645, [])"
  by (simp add: parseCommandLine_def int_to_unsigned_def main_def
        validateComputableDimensions_def MAX_val_def maxWidthHeight_def INT_MAX_def)

section \<open>Failures of a run\<close>

text \<open>A loop fails only where its body fails.\<close>

lemma for_loop_Inl:
  "for_loop i n body s = Inl x \<Longrightarrow> \<exists>k t. body k t = Inl x"
proof (induction i n body s rule: for_loop.induct)
  case (1 i n body s)
  show ?case
  proof (cases "i < n")
    case False
    with "1.prems" show ?thesis by (simp add: for_loop.simps)
  next
    case True
    show ?thesis
    proof (cases "body i s")
      case (Inl e)
      with True "1.prems" have "e = x" by (simp add: for_loop.simps [of i n])
      with Inl show ?thesis by blast
    next
      case (Inr s')
      with True "1.prems" have "for_loop (Suc i) n body s' = Inl x"
        by (simp add: for_loop.simps [of i n])
      with "1.IH" True Inr show ?thesis by blast
    qed
  qed
qed

lemma ub_Inl: "ub r = Inl e \<Longrightarrow> e = UndefinedBehaviour"
  by (simp add: ub_def split: option.splits)

lemma enlargePbmRowHorizontally_Inl:
  assumes "enlargePbmRowHorizontally inrow n m f outrow h = Inl e"
  shows "e = UndefinedBehaviour"
proof -
  have "\<exists>k t. double_step inrow outrow k t = Inl e \<or> triple_step inrow outrow k t = Inl e
          \<or> quintuple_step inrow outrow k t = Inl e \<or> general_step inrow f outrow k t = Inl e"
    using assms
    by (auto simp add: enlargePbmRowHorizontally_def split: if_splits dest!: for_loop_Inl)
  then show ?thesis
    by (auto simp add: double_step_def triple_step_def quintuple_step_def general_step_def Let_def
        split: if_splits dest: ub_Inl)
qed

lemma fail_eq: "fail e s = Inl (e', out) \<longleftrightarrow> e' = e \<and> out = ofile s"
  by (auto simp add: fail_def)

lemma on_mem_Inl: "on_mem g s = Inl (e, out) \<Longrightarrow> g (mem s) = Inl e"
  by (auto simp add: on_mem_def fail_def split: sum.splits)

lemma enlargePbm_row_Inl:
  assumes "enlargePbm_row inpam f inrow outrow outcols n m row s = Inl (e, out)"
  shows "e = TruncatedInput \<or> e = UndefinedBehaviour"
proof -
  have rd: "e = TruncatedInput \<or> e = UndefinedBehaviour"
    if "pbm_readpbmrow_packed p c t = Inl (e, out)" for p c t
    using that by (auto simp add: pbm_readpbmrow_packed_def Let_def fail_eq split: if_splits option.splits)
  have cl: "e = UndefinedBehaviour" if "on_mem (clean_final_byte p a b) t = Inl (e, out)" for p a b t
    using on_mem_Inl [OF that] by (auto simp add: clean_final_byte_def dest: ub_Inl)
  have en: "e = UndefinedBehaviour"
    if "on_mem (enlargePbmRowHorizontally p a b c q) t = Inl (e, out)" for p a b c q t
    using on_mem_Inl [OF that] by (rule enlargePbmRowHorizontally_Inl)
  have wr: "e = UndefinedBehaviour"
    if "for_loop 0 c (\<lambda>i. pbm_writepbmrow_packed p d) t = Inl (e, out)" for p c d t
    using for_loop_Inl [OF that]
    by (auto simp add: pbm_writepbmrow_packed_def fail_eq split: if_splits option.splits)
  show ?thesis
    using assms unfolding enlargePbm_row_def
    by (auto split: sum.splits if_splits dest: rd cl en wr)
qed

lemma enlargePbm_Inl:
  assumes "enlargePbm junk inpam f s = Inl (e, out)"
  shows "e = TruncatedInput \<or> e = UndefinedBehaviour"
proof -
  obtain inrow outrow h where r: "enlargePbm_rows junk inpam f (mem s) = (inrow, outrow, h)"
    by (cases "enlargePbm_rows junk inpam f (mem s)") auto
  from assms obtain n t where "for_loop 0 n
      (enlargePbm_row inpam f inrow outrow (u32 (pam_width inpam * f))
         (pbm_packed_bytes (pam_width inpam)) (pbm_packed_bytes (u32 (pam_width inpam * f)))) t
      = Inl (e, out)"
    unfolding enlargePbm_def Let_def r by (auto split: sum.splits)
  from for_loop_Inl [OF this] show ?thesis by (auto dest: enlargePbm_row_Inl)
qed

lemma makeOutputRowMap_Inl:
  assumes "makeOutputRowMap fresh ow iw tr = Inl e"
  shows "e = UndefinedBehaviour"
proof -
  from assms [unfolded makeOutputRowMap_def] for_loop_Inl
  obtain k t where "(let scaleFactor = ow div iw in
       for_loop 0 scaleFactor (\<lambda>subcol newtuplerow.
         if u32 (k * scaleFactor + subcol) < length newtuplerow \<and> k < length tr
         then Inr (newtuplerow[u32 (k * scaleFactor + subcol) := tr ! k])
         else Inl UndefinedBehaviour) t) = Inl e"
    by fast
  then show ?thesis
    by (auto simp add: Let_def dest!: for_loop_Inl split: if_splits)
qed

lemma enlargeGeneral_Inl:
  assumes "enlargeGeneral ft fr inpam f s = Inl (e, out)"
  shows "e = TruncatedInput \<or> e = UndefinedBehaviour"
proof -
  have body: "e = TruncatedInput \<or> e = UndefinedBehaviour"
    if "(case pnm_readpamrow c t of Inl x \<Rightarrow> Inl x
         | Inr t' \<Rightarrow> pnm_writepamrowmult ow nr f t') = Inl (e, out)" for c t ow nr
    using that
    by (auto simp add: pnm_readpamrow_def pnm_writepamrowmult_def fail_eq
        split: sum.splits if_splits)
  show ?thesis
    using assms unfolding enlargeGeneral_def Let_def
    by (auto simp add: fail_eq split: sum.splits dest: makeOutputRowMap_Inl body dest!: for_loop_Inl)
qed

text \<open>
  Claim C7.  A run that fails with \<open>DimensionOverflow\<close> has written nothing: no header and
  no row.  When the arguments parse, the input opens and has a header, and the factor times
  the larger dimension exceeds \<open>INT_MAX - 2\<close> (as for width 100000, height 1 and factor
  21475), the run fails with \<open>DimensionOverflow\<close> and an empty output.
\<close>

theorem overflow_reported_before_output:
  "(main w argv = Inl (DimensionOverflow a b c d, out) \<longrightarrow> out = [])
   \<and> (parseCommandLine (w_atoi w) argv = Inr cmdline
      \<and> w_files w (cmd_inputFilespec cmdline) = Some file
      \<and> file_header file = Some inpam
      \<and> 1 \<le> pam_width inpam \<and> 1 \<le> pam_height inpam
      \<and> cmd_scaleFactor cmdline * max (pam_width inpam) (pam_height inpam) > maxWidthHeight
      \<longrightarrow> main w argv =
            Inl (DimensionOverflow (cmd_scaleFactor cmdline) (pam_width inpam) (pam_height inpam)
                   (maxWidthHeight div max (pam_width inpam) (pam_height inpam)), []))"
proof (intro conjI impI)
  assume m: "main w argv = Inl (DimensionOverflow a b c d, out)"
  have no: "e \<noteq> DimensionOverflow a b c d" if "e = TruncatedInput \<or> e = UndefinedBehaviour" for e
    using that by auto
  show "out = []"
    using m unfolding main_def Let_def
    by (auto split: sum.splits option.splits if_splits
        dest!: enlargePbm_Inl enlargeGeneral_Inl)
next
  assume a: "parseCommandLine (w_atoi w) argv = Inr cmdline
      \<and> w_files w (cmd_inputFilespec cmdline) = Some file
      \<and> file_header file = Some inpam
      \<and> 1 \<le> pam_width inpam \<and> 1 \<le> pam_height inpam
      \<and> cmd_scaleFactor cmdline * max (pam_width inpam) (pam_height inpam) > maxWidthHeight"
  then have pos: "0 < max (pam_width inpam) (pam_height inpam)" by (simp add: max_def)
  have "\<not> cmd_scaleFactor cmdline \<le> maxWidthHeight div max (pam_width inpam) (pam_height inpam)"
    using a pos by (simp add: less_eq_div_iff_mult_less_eq)
  then have "validateComputableDimensions (pam_width inpam) (pam_height inpam) (cmd_scaleFactor cmdline)
      = Inl (DimensionOverflow (cmd_scaleFactor cmdline) (pam_width inpam) (pam_height inpam)
                   (maxWidthHeight div max (pam_width inpam) (pam_height inpam)))"
    using pos
    by (auto simp add: validateComputableDimensions_def MAX_val_eq_max Let_def max.commute)
  then show "main w argv =
            Inl (DimensionOverflow (cmd_scaleFactor cmdline) (pam_width inpam) (pam_height inpam)
                   (maxWidthHeight div max (pam_width inpam) (pam_height inpam)), [])"
    using a by (simp add: main_def)
qed

theorem overflow_reported_before_output_witness:
  "parseCommandLine (\<lambda>s. 21475) [''pamenlarge'', ''21475'']
     = Inr \<lparr>cmd_inputFilespec = ''-'', cmd_scaleFactor = 21475\<rparr>
   \<and> (1::nat) \<le> 100000 \<and> (1::nat) \<le> 1 \<and> 21475 * max 100000 1 > maxWidthHeight
   \<and> main \<lparr>w_atoi = (\<lambda>s. 21475),
           w_files = (\<lambda>name. Some \<lparr>file_header = Some \<lparr>pam_width = 100000, pam_height = 1,
                                                        pam_is_pbm = True\<rparr>,
                                     file_packed = [], file_tuples = []\<rparr>),
           w_junk = (\<lambda>p i. 0), w_fresh_tuples = (\<lambda>i. []), w_fresh_row = (\<lambda>i. 0)\<rparr>
        [''pamenlarge'', ''21475'']
     = Inl (DimensionOverflow 21475 100000 1 21474, [])"
  using overflow_reported_before_output [of
      "\<lparr>w_atoi = (\<lambda>s. 21475),
           w_files = (\<lambda>name. Some \<lparr>file_header = Some \<lparr>pam_width = 100000, pam_height = 1,
                                                        pam_is_pbm = True\<rparr>,
                                     file_packed = [], file_tuples = []\<rparr>),
           w_junk = (\<lambda>p i. 0), w_fresh_tuples = (\<lambda>i. []), w_fresh_row = (\<lambda>i. 0)\<rparr>"
      "[''pamenlarge'', ''21475'']" 21475 100000 1 21474 "[]"
      "\<lparr>cmd_inputFilespec = ''-'', cmd_scaleFactor = 21475\<rparr>"
      "\<lparr>file_header = Some \<lparr>pam_width = 100000, pam_height = 1, pam_is_pbm = True\<rparr>,
        file_packed = [], file_tuples = []\<rparr>"
      "\<lparr>pam_width = 100000, pam_height = 1, pam_is_pbm = True\<rparr>"]
  by (simp add: parseCommandLine_def int_to_unsigned_def maxWidthHeight_def INT_MAX_def)

section \<open>The run over the rows of an image\<close>

text \<open>Cleaning the final partial byte keeps the pixels of the row.\<close>

lemma cleaned_bit:
  assumes "i < 8"
  shows "bit (ucast (push_bit k (promote (ucast (drop_bit k (promote b)) :: byte))) :: byte) i
           = (k \<le> i \<and> bit b i)"
  using assms
  by (auto simp add: bit_ucast_iff bit_push_bit_iff bit_drop_bit_eq bit_promote
      dest: bit_imp_le_length)

lemma last_byte: "0 < w mod 8 \<Longrightarrow> pbm_packed_bytes w = Suc (w div 8)"
  unfolding pbm_packed_bytes_def by arith

lemma clean_final_byte_row:
  assumes h: "cells h inrow = Some ib" "length ib = pbm_packed_bytes w" and w: "0 < w mod 8"
    and small: "w < 4294967296"
  shows "\<exists>ib'. clean_final_byte inrow (pbm_packed_bytes w) w h
                 = Inr (h\<lparr>cells := (cells h)(inrow \<mapsto> ib')\<rparr>)
             \<and> length ib' = length ib \<and> row_bits w ib' = row_bits w ib"
proof -
  define k where "k = 8 - w mod 8"
  define l where "l = w div 8"
  define c where "c = (ucast (push_bit k (promote (ucast (drop_bit k (promote (ib ! l))) :: byte))) :: byte)"
  have n: "pbm_packed_bytes w = Suc l" using w by (simp add: last_byte l_def)
  have l: "l < length ib" using h(2) n by simp
  have "l \<le> w" unfolding l_def by (rule div_le_dividend)
  then have "Suc l < 4294967296" using small w unfolding l_def by arith
  then have u1: "usub (pbm_packed_bytes w) (Suc 0) = l" by (simp add: n usub_id)
  have u8: "8 - w mod 8 = k" by (simp add: k_def)
  have k: "k < 32" by (simp add: k_def)
  have run: "clean_final_byte inrow (pbm_packed_bytes w) w h
               = Inr (h\<lparr>cells := (cells h)(inrow \<mapsto> ib[l := c])\<rparr>)"
    using h(1) l k
    by (simp add: clean_final_byte_def u1 u8 rd_def wr_def ub_def shift_right_def c_def)
  have "getbit (ib[l := c]) p = getbit ib p" if "p < w" for p
  proof (cases "p div 8 = l")
    case False
    then show ?thesis by (simp add: getbit_def)
  next
    case True
    have "p mod 8 < w mod 8"
    proof -
      have "p = 8 * l + p mod 8" using True by (metis mult_div_mod_eq)
      moreover have "w = 8 * l + w mod 8" by (simp add: l_def)
      ultimately show ?thesis using that by arith
    qed
    then have "k \<le> 7 - p mod 8" by (simp add: k_def)
    then show ?thesis using True l by (simp add: getbit_def c_def cleaned_bit)
  qed
  then have "row_bits w (ib[l := c]) = row_bits w ib" by (simp add: row_bits_def)
  then show ?thesis using run by (intro exI [of _ "ib[l := c]"]) simp
qed

text \<open>The loop that writes the output row \<open>f\<close> times.\<close>

lemma write_loop:
  assumes "cells (mem s) outrow = Some ob" "pbm_packed_bytes c \<le> length ob"
  shows "for_loop 0 f (\<lambda>i. pbm_writepbmrow_packed outrow c) s
           = Inr (s\<lparr>ofile := ofile s @ replicate f (PbmRow c (take (pbm_packed_bytes c) ob))\<rparr>)"
proof -
  define ev where "ev = PbmRow c (take (pbm_packed_bytes c) ob)"
  define g where "g k = s\<lparr>ofile := ofile s @ replicate k ev\<rparr>" for k
  have "for_loop 0 f (\<lambda>i. pbm_writepbmrow_packed outrow c) (g 0) = Inr (g f)"
  proof (rule for_loop_steps)
    fix k
    show "pbm_writepbmrow_packed outrow c (g k) = Inr (g (Suc k))"
      using assms
      by (simp add: pbm_writepbmrow_packed_def g_def ev_def replicate_append_same)
  qed
  then show ?thesis by (simp add: g_def ev_def)
qed

lemma getbit_take: "p < 8 * m \<Longrightarrow> m \<le> length ob \<Longrightarrow> getbit (take m ob) p = getbit ob p"
proof -
  assume "p < 8 * m" "m \<le> length ob"
  then have "p div 8 < m" by (simp add: less_mult_imp_div_less mult.commute)
  then show ?thesis by (simp add: getbit_def)
qed

lemma row_bits_take:
  "c \<le> 8 * m \<Longrightarrow> m \<le> length ob \<Longrightarrow> row_bits c (take m ob) = row_bits c ob"
  by (simp add: row_bits_def getbit_take)

lemma row_bits_append:
  "c \<le> 8 * length xs \<Longrightarrow> row_bits c (xs @ ys) = row_bits c xs"
proof -
  assume c: "c \<le> 8 * length xs"
  have "getbit (xs @ ys) p = getbit xs p" if "p < c" for p
  proof -
    have "p div 8 < length xs" using that c by (simp add: less_mult_imp_div_less mult.commute)
    then show ?thesis by (simp add: getbit_def nth_append)
  qed
  then show ?thesis by (simp add: row_bits_def)
qed

text \<open>One input row of \<^verbatim>\<open>enlargePbm\<close>: read, clean, enlarge, write \<open>f\<close> times.\<close>

lemma enlargePbm_row_run:
  assumes f: "1 \<le> f" and w: "1 \<le> w" "w * f \<le> maxWidthHeight"
    and wd: "pam_width inpam = w"
    and h: "cells (mem s) inrow = Some ib" "length ib = pbm_packed_bytes w"
      "cells (mem s) outrow = Some ob"
    and buf: "if f = 1 then outrow = inrow
              else outrow \<noteq> inrow \<and> length ob = pbm_packed_bytes (w * f + 32)"
    and inp: "pbm_packed_bytes w \<le> length (packed_input s)"
  shows "\<exists>ib' ob' t.
           enlargePbm_row inpam f inrow outrow (w * f) (pbm_packed_bytes w)
              (pbm_packed_bytes (w * f)) row s
             = Inr (s\<lparr>mem := (mem s)\<lparr>cells := (cells (mem s))(inrow \<mapsto> ib', outrow \<mapsto> ob')\<rparr>,
                      packed_input := drop (pbm_packed_bytes w) (packed_input s),
                      ofile := ofile s @ replicate f (PbmRow (w * f) t)\<rparr>)
         \<and> length ib' = length ib \<and> length ob' = length ob
         \<and> length t = pbm_packed_bytes (w * f)
         \<and> row_bits (w * f) t
             = replicate_each f (row_bits w (take (pbm_packed_bytes w) (packed_input s)))"
proof -
  define n where "n = pbm_packed_bytes w"
  define m where "m = pbm_packed_bytes (w * f)"
  define raw where "raw = take n (packed_input s)"
  define s1 where "s1 = s\<lparr>mem := (mem s)\<lparr>cells := (cells (mem s))(inrow \<mapsto> raw)\<rparr>,
                           packed_input := drop n (packed_input s)\<rparr>"
  have lraw: "length raw = n" using inp by (simp add: raw_def n_def)
  have w8: "w \<le> 8 * n" unfolding n_def by (rule packed_bytes_8)
  have rd: "pbm_readpbmrow_packed inrow w s = Inr s1"
    using h(1,2) inp
    by (simp add: pbm_readpbmrow_packed_def Let_def s1_def raw_def n_def)
  have c1: "cells (mem s1) inrow = Some raw" by (simp add: s1_def)
  obtain cl where cl: "(if w mod 8 > 0 then on_mem (clean_final_byte inrow n w) s1 else Inr s1)
        = Inr (s1\<lparr>mem := (mem s1)\<lparr>cells := (cells (mem s1))(inrow \<mapsto> cl)\<rparr>\<rparr>)"
      and lcl: "length cl = n" and bcl: "row_bits w cl = row_bits w raw"
  proof (cases "w mod 8 > 0")
    case True
    have "w \<le> w * f" using f by (cases f) simp_all
    moreover have "w * f \<le> 2147483645" using w(2) by (simp add: maxWidthHeight_def INT_MAX_def)
    ultimately have "w < 4294967296" by arith
    from clean_final_byte_row [OF c1 _ True this] lraw obtain ib' where
      "clean_final_byte inrow n w (mem s1) = Inr ((mem s1)\<lparr>cells := (cells (mem s1))(inrow \<mapsto> ib')\<rparr>)"
      "length ib' = n" "row_bits w ib' = row_bits w raw"
      by (auto simp add: n_def)
    then show ?thesis using True that by (simp add: on_mem_def)
  next
    case False
    have "s1\<lparr>mem := (mem s1)\<lparr>cells := (cells (mem s1))(inrow \<mapsto> raw)\<rparr>\<rparr> = s1"
      by (simp add: s1_def)
    then show ?thesis using False that [of raw] lraw by simp
  qed
  define s2 where "s2 = s1\<lparr>mem := (mem s1)\<lparr>cells := (cells (mem s1))(inrow \<mapsto> cl)\<rparr>\<rparr>"
  have c2: "cells (mem s2) inrow = Some cl" by (simp add: s2_def)
  define ob2 where "ob2 = (if f = 1 then cl else ob)"
  have o2: "cells (mem s2) outrow = Some ob2"
    using buf h(3) by (auto simp add: s2_def s1_def ob2_def)
  have buf2: "if f = 1 then outrow = inrow
              else outrow \<noteq> inrow \<and> length ob2 = pbm_packed_bytes (w * f + 32)"
    using buf by (auto simp add: ob2_def)
  from enlarge_row [OF f w c2 _ o2 buf2] lcl obtain ob' where
    en: "enlargePbmRowHorizontally inrow n m f outrow (mem s2)
           = Inr ((mem s2)\<lparr>cells := (cells (mem s2))(outrow \<mapsto> ob')\<rparr>)"
    and lob': "length ob' = length ob2"
    and bob': "row_bits (w * f) ob' = replicate_each f (row_bits w cl)"
    by (auto simp add: n_def m_def)
  define s3 where "s3 = s2\<lparr>mem := (mem s2)\<lparr>cells := (cells (mem s2))(outrow \<mapsto> ob')\<rparr>\<rparr>"
  have c3: "cells (mem s3) outrow = Some ob'" by (simp add: s3_def)
  have wf8: "w * f \<le> 8 * m" unfolding m_def by (rule packed_bytes_8)
  have mlen: "m \<le> length ob'"
  proof (cases "f = 1")
    case True
    then show ?thesis using lob' lcl by (simp add: ob2_def m_def n_def)
  next
    case False
    then have "length ob' = m + 4" using lob' buf by (simp add: ob2_def packed_bytes_32 m_def)
    then show ?thesis by simp
  qed
  have wr: "for_loop 0 f (\<lambda>i. pbm_writepbmrow_packed outrow (w * f)) s3
           = Inr (s3\<lparr>ofile := ofile s3 @ replicate f (PbmRow (w * f) (take m ob'))\<rparr>)"
    using c3 mlen unfolding m_def by (rule write_loop)
  have run: "enlargePbm_row inpam f inrow outrow (w * f) n m row s
      = Inr (s3\<lparr>ofile := ofile s3 @ replicate f (PbmRow (w * f) (take m ob'))\<rparr>)"
    unfolding enlargePbm_row_def wd
    using rd cl en wr by (simp add: on_mem_def s2_def [symmetric] s3_def [symmetric])
  define ib' where "ib' = (if f = 1 then ob' else cl)"
  have final: "s3\<lparr>ofile := ofile s3 @ replicate f (PbmRow (w * f) (take m ob'))\<rparr>
      = s\<lparr>mem := (mem s)\<lparr>cells := (cells (mem s))(inrow \<mapsto> ib', outrow \<mapsto> ob')\<rparr>,
           packed_input := drop n (packed_input s),
           ofile := ofile s @ replicate f (PbmRow (w * f) (take m ob'))\<rparr>"
    using buf by (auto simp add: s3_def s2_def s1_def ib'_def fun_upd_twist)
  have lens: "length ib' = length ib" "length ob' = length ob"
    using lob' lcl h(2) buf h(1,3) by (auto simp add: ib'_def ob2_def n_def)
  have bits: "row_bits (w * f) (take m ob') = replicate_each f (row_bits w raw)"
    using bob' bcl wf8 mlen by (simp add: row_bits_take)
  show ?thesis
    unfolding n_def [symmetric] m_def [symmetric]
    using run final lens bits mlen
    by (intro exI [of _ ib'] exI [of _ ob'] exI [of _ "take m ob'"]) (simp add: raw_def)
qed

lemma replicate_each_snoc:
  "replicate_each f (xs @ [x]) = replicate_each f xs @ replicate f x"
  by (simp add: replicate_each_def)

lemma replicate_each_nth_map:
  "replicate_each f xs = map (\<lambda>j. xs ! (j div f)) [0..<length xs * f]"
  by (rule nth_equalityI) (simp_all add: nth_replicate_each mult.commute)

lemma validated_u32:
  assumes "a * f \<le> maxWidthHeight"
  shows "u32 (a * f) = a * f" "u32 (a * f + 32) = a * f + 32"
  using assms by (simp_all add: u32_id maxWidthHeight_def INT_MAX_def)

text \<open>The whole of \<^verbatim>\<open>enlargePbm\<close>.\<close>

lemma enlargePbm_run:
  assumes f: "1 \<le> f" and w: "1 \<le> w" "w * f \<le> maxWidthHeight"
    and hf: "hgt * f \<le> maxWidthHeight"
    and pam: "pam_width inpam = w" "pam_height inpam = hgt"
    and inp: "hgt * pbm_packed_bytes w \<le> length (packed_input s)"
  shows "\<exists>s' T. enlargePbm junk inpam f s = Inr s' \<and> length T = hgt
           \<and> ofile s' = ofile s @ PbmHeader (w * f) (hgt * f)
                           # replicate_each f (map (PbmRow (w * f)) T)
           \<and> (\<forall>r < hgt. length (T ! r) = pbm_packed_bytes (w * f)
                 \<and> row_bits (w * f) (T ! r)
                     = replicate_each f (row_bits w
                         (take (pbm_packed_bytes w) (drop (r * pbm_packed_bytes w) (packed_input s)))))"
proof -
  define n where "n = pbm_packed_bytes w"
  define m where "m = pbm_packed_bytes (w * f)"
  define inrow where "inrow = allocated (mem s)"
  define outrow where "outrow = (if f = 1 then inrow else Suc inrow)"
  define ib0 where "ib0 = map (junk inrow) [0..<n]"
  define ob0 where "ob0 = (if f = 1 then ib0 else map (junk outrow) [0..<pbm_packed_bytes (w * f + 32)])"
  define h1 where "h1 = (mem s)\<lparr>cells := (cells (mem s))(inrow \<mapsto> ib0, outrow \<mapsto> ob0),
                                 allocated := Suc outrow\<rparr>"
  note u = validated_u32 [OF w(2)] validated_u32 [OF hf]
  have rows: "enlargePbm_rows junk inpam f (mem s) = (inrow, outrow, h1)"
    by (simp add: enlargePbm_rows_def pbm_allocrow_packed_def Let_def pam u inrow_def outrow_def
          ib0_def ob0_def h1_def n_def)
  define hdr where "hdr = ofile s @ [PbmHeader (w * f) (hgt * f)]"
  define s1 where "s1 = pbm_writepbminit (w * f) (hgt * f) (s\<lparr>mem := h1\<rparr>)"
  define good where "good r T \<longleftrightarrow> length T = r \<and> (\<forall>r' < r. length (T ! r') = m
       \<and> row_bits (w * f) (T ! r')
           = replicate_each f (row_bits w (take n (drop (r' * n) (packed_input s)))))" for r T
  define I where "I r t \<longleftrightarrow> (\<exists>ib ob T. cells (mem t) inrow = Some ib \<and> length ib = n
       \<and> cells (mem t) outrow = Some ob \<and> length ob = length ob0
       \<and> packed_input t = drop (r * n) (packed_input s)
       \<and> ofile t = hdr @ replicate_each f (map (PbmRow (w * f)) T) \<and> good r T)"
    for r and t :: io
  have buf0: "if f = 1 then outrow = inrow
              else outrow \<noteq> inrow \<and> length ob0 = pbm_packed_bytes (w * f + 32)"
    by (simp add: outrow_def ob0_def)
  have start: "I 0 s1"
    unfolding I_def
    by (intro exI [of _ ib0] exI [of _ ob0] exI [of _ "[]"])
       (auto simp add: s1_def pbm_writepbminit_def h1_def hdr_def good_def replicate_each_def
          outrow_def ib0_def ob0_def)
  have step: "\<exists>t'. enlargePbm_row inpam f inrow outrow (w * f) n m r t = Inr t' \<and> I (Suc r) t'"
    if r: "r < hgt" and Ir: "I r t" for r t
  proof -
    from Ir obtain ib ob T where t: "cells (mem t) inrow = Some ib" "length ib = n"
      "cells (mem t) outrow = Some ob" "length ob = length ob0"
      "packed_input t = drop (r * n) (packed_input s)"
      "ofile t = hdr @ replicate_each f (map (PbmRow (w * f)) T)" "good r T"
      unfolding I_def by blast
    have "Suc r * n \<le> hgt * n" using r by (intro mult_le_mono1) simp
    then have enough: "n \<le> length (packed_input t)"
      using inp t(5) by (simp add: n_def)
    have buf: "if f = 1 then outrow = inrow
               else outrow \<noteq> inrow \<and> length ob = pbm_packed_bytes (w * f + 32)"
      using buf0 t(4) by auto
    from enlargePbm_row_run [OF f w pam(1) t(1) t(2) [unfolded n_def] t(3) buf
        enough [unfolded n_def], of r]
    obtain ib' ob' x where
      run: "enlargePbm_row inpam f inrow outrow (w * f) n m r t
             = Inr (t\<lparr>mem := (mem t)\<lparr>cells := (cells (mem t))(inrow \<mapsto> ib', outrow \<mapsto> ob')\<rparr>,
                      packed_input := drop n (packed_input t),
                      ofile := ofile t @ replicate f (PbmRow (w * f) x)\<rparr>)"
      and l: "length ib' = length ib" "length ob' = length ob" "length x = m"
      and b: "row_bits (w * f) x = replicate_each f (row_bits w (take n (packed_input t)))"
      unfolding n_def m_def by blast
    have g: "good (Suc r) (T @ [x])"
      using t(7) l(3) b t(5)
      by (auto simp add: good_def nth_append less_Suc_eq)
    have "I (Suc r) (t\<lparr>mem := (mem t)\<lparr>cells := (cells (mem t))(inrow \<mapsto> ib', outrow \<mapsto> ob')\<rparr>,
                      packed_input := drop n (packed_input t),
                      ofile := ofile t @ replicate f (PbmRow (w * f) x)\<rparr>)"
      unfolding I_def
      using t l g buf
      by (intro exI [of _ "if f = 1 then ob' else ib'"] exI [of _ ob'] exI [of _ "T @ [x]"])
         (auto simp add: replicate_each_snoc add.commute)
    with run show ?thesis by blast
  qed
  have "\<exists>t. for_loop 0 hgt (enlargePbm_row inpam f inrow outrow (w * f) n m) s1 = Inr t \<and> I hgt t"
    by (rule for_loop_Inr [where I = I]) (use start step in auto)
  then obtain t where loop: "for_loop 0 hgt (enlargePbm_row inpam f inrow outrow (w * f) n m) s1 = Inr t"
    and It: "I hgt t" by blast
  from It obtain T where T: "ofile t = hdr @ replicate_each f (map (PbmRow (w * f)) T)" "good hgt T"
    unfolding I_def by blast
  have "\<exists>s'. enlargePbm junk inpam f s = Inr s' \<and> ofile s' = ofile t"
    unfolding enlargePbm_def Let_def pam u rows
    using loop by (simp add: s1_def n_def m_def)
  then show ?thesis
    using T unfolding good_def hdr_def n_def m_def by auto
qed

text \<open>The row map of the generic path sends output column \<open>j\<close> to input column \<open>j div f\<close>.\<close>

lemma makeOutputRowMap_run:
  assumes w: "1 \<le> w" and small: "w * f < 4294967296"
  shows "makeOutputRowMap fresh (w * f) w [0..<w] = Inr (map (\<lambda>j. j div f) [0..<w * f])"
proof -
  define G where "G N = map (\<lambda>j. if j < N then j div f else fresh j) [0..<w * f]" for N
  have sf: "(w * f) div w = f" using w by simp
  have upd: "(G N)[N := N div f] = G (Suc N)" if "N < w * f" for N
    by (rule nth_equalityI) (use that in \<open>auto simp add: G_def nth_list_update less_Suc_eq\<close>)
  have inner: "for_loop 0 f (\<lambda>subcol newtuplerow.
         if u32 (col * f + subcol) < length newtuplerow \<and> col < length [0..<w]
         then Inr (newtuplerow[u32 (col * f + subcol) := [0..<w] ! col])
         else Inl UndefinedBehaviour) (G (col * f)) = Inr (G (Suc col * f))" if col: "col < w" for col
  proof -
    have "for_loop 0 f (\<lambda>subcol newtuplerow.
         if u32 (col * f + subcol) < length newtuplerow \<and> col < length [0..<w]
         then Inr (newtuplerow[u32 (col * f + subcol) := [0..<w] ! col])
         else Inl UndefinedBehaviour) (G (col * f + 0)) = Inr (G (col * f + f))"
    proof (rule for_loop_steps)
      fix k assume k: "k < f"
      have "Suc col * f \<le> w * f" using col by (intro mult_le_mono1) simp
      then have lt: "col * f + k < w * f" using k by simp
      then have u: "u32 (col * f + k) = col * f + k" using small by (simp add: u32_id)
      have d: "(col * f + k) div f = col" using k by simp
      show "(if u32 (col * f + k) < length (G (col * f + k)) \<and> col < length [0..<w]
             then Inr ((G (col * f + k))[u32 (col * f + k) := [0..<w] ! col])
             else Inl UndefinedBehaviour) = Inr (G (col * f + Suc k))"
        using upd [OF lt] lt col unfolding u d by (simp add: G_def)
    qed
    then show ?thesis by (simp add: add.commute)
  qed
  have "for_loop 0 w (\<lambda>col newtuplerow.
       let scaleFactor = (w * f) div w in
       for_loop 0 scaleFactor (\<lambda>subcol newtuplerow.
         if u32 (col * scaleFactor + subcol) < length newtuplerow \<and> col < length [0..<w]
         then Inr (newtuplerow[u32 (col * scaleFactor + subcol) := [0..<w] ! col])
         else Inl UndefinedBehaviour) newtuplerow) (G (0 * f)) = Inr (G (w * f))"
  proof (rule for_loop_steps)
    fix col assume col: "col < w"
    show "(let scaleFactor = (w * f) div w in
       for_loop 0 scaleFactor (\<lambda>subcol newtuplerow.
         if u32 (col * scaleFactor + subcol) < length newtuplerow \<and> col < length [0..<w]
         then Inr (newtuplerow[u32 (col * scaleFactor + subcol) := [0..<w] ! col])
         else Inl UndefinedBehaviour) (G (col * f))) = Inr (G (Suc col * f))"
      by (simp only: Let_def sf inner [OF col])
  qed
  moreover have "G (0 * f) = map fresh [0..<w * f]" "G (w * f) = map (\<lambda>j. j div f) [0..<w * f]"
    by (simp_all add: G_def)
  ultimately show ?thesis by (simp add: makeOutputRowMap_def)
qed

text \<open>The whole of \<^verbatim>\<open>enlargeGeneral\<close>.\<close>

lemma enlargeGeneral_run:
  assumes f: "1 \<le> f" and w: "1 \<le> w" "w * f \<le> maxWidthHeight"
    and hf: "hgt * f \<le> maxWidthHeight"
    and pam: "pam_width inpam = w" "pam_height inpam = hgt"
    and inp: "hgt * w \<le> length (tuple_input s)"
  shows "\<exists>s'. enlargeGeneral ft fr inpam f s = Inr s'
           \<and> ofile s' = ofile s @ PamHeader (w * f) (hgt * f)
               # replicate_each f
                   (map (\<lambda>r. PamRow (replicate_each f (take w (drop (r * w) (tuple_input s)))))
                      [0..<hgt])"
proof -
  note u = validated_u32 [OF w(2)] validated_u32 [OF hf]
  define newrow where "newrow = map (\<lambda>j. j div f) [0..<w * f]"
  define R where "R r = PamRow (replicate_each f (take w (drop (r * w) (tuple_input s))))" for r
  define hdr where "hdr = ofile s @ [PamHeader (w * f) (hgt * f)]"
  define s1 where "s1 = (pnm_writepaminit (w * f) (hgt * f) s)\<lparr>tuples := map ft [0..<w]\<rparr>"
  define I where "I r t \<longleftrightarrow> length (tuples t) = w \<and> tuple_input t = drop (r * w) (tuple_input s)
      \<and> ofile t = hdr @ replicate_each f (map R [0..<r])" for r and t :: io
  have small: "w * f < 4294967296" using w(2) by (simp add: maxWidthHeight_def INT_MAX_def)
  have mk: "makeOutputRowMap fr (w * f) w [0..<w] = Inr newrow"
    unfolding newrow_def using w(1) small by (rule makeOutputRowMap_run)
  have start: "I 0 s1"
    by (simp add: I_def s1_def pnm_writepaminit_def hdr_def replicate_each_def)
  have ptr: "\<not> list_ex (\<lambda>p. p \<ge> w) newrow"
    by (auto simp add: newrow_def list_ex_iff less_mult_imp_div_less not_le)
  have step: "\<exists>t'. (case pnm_readpamrow w t of Inl e \<Rightarrow> Inl e
                     | Inr t1 \<Rightarrow> pnm_writepamrowmult (w * f) newrow f t1) = Inr t' \<and> I (Suc r) t'"
    if r: "r < hgt" and Ir: "I r t" for r t
  proof -
    from Ir have t: "length (tuples t) = w" "tuple_input t = drop (r * w) (tuple_input s)"
      "ofile t = hdr @ replicate_each f (map R [0..<r])"
      unfolding I_def by simp_all
    define row where "row = take w (drop (r * w) (tuple_input s))"
    have "Suc r * w \<le> hgt * w" using r by (intro mult_le_mono1) simp
    then have enough: "w \<le> length (tuple_input t)" using inp t(2) by simp
    then have lrow: "length row = w" using t(2) by (simp add: row_def)
    define t1 where "t1 = t\<lparr>tuples := row, tuple_input := drop w (tuple_input t)\<rparr>"
    have rd: "pnm_readpamrow w t = Inr t1"
      using enough t(1,2) by (simp add: pnm_readpamrow_def t1_def row_def)
    have "map (\<lambda>p. row ! p) newrow = replicate_each f row"
      by (simp add: newrow_def replicate_each_nth_map lrow o_def)
    then have wr: "pnm_writepamrowmult (w * f) newrow f t1
        = Inr (t1\<lparr>ofile := ofile t1 @ replicate f (R r)\<rparr>)"
      using ptr lrow
      by (simp add: pnm_writepamrowmult_def t1_def newrow_def R_def row_def)
    have "I (Suc r) (t1\<lparr>ofile := ofile t1 @ replicate f (R r)\<rparr>)"
      using t lrow by (simp add: I_def t1_def replicate_each_snoc add.commute)
    with rd wr show ?thesis by simp
  qed
  have "\<exists>t. for_loop 0 hgt (\<lambda>row t. case pnm_readpamrow w t of Inl e \<Rightarrow> Inl e
                     | Inr t1 \<Rightarrow> pnm_writepamrowmult (w * f) newrow f t1) s1 = Inr t \<and> I hgt t"
    by (rule for_loop_Inr [where I = I]) (use start step in auto)
  then obtain t where
    loop: "for_loop 0 hgt (\<lambda>row t. case pnm_readpamrow w t of Inl e \<Rightarrow> Inl e
                     | Inr t1 \<Rightarrow> pnm_writepamrowmult (w * f) newrow f t1) s1 = Inr t"
    and out: "ofile t = hdr @ replicate_each f (map R [0..<hgt])"
    unfolding I_def by blast
  have "map R [0..<hgt]
      = map (\<lambda>r. PamRow (replicate_each f (take w (drop (r * w) (tuple_input s))))) [0..<hgt]"
    by (simp add: R_def)
  with out have "ofile t = ofile s @ PamHeader (w * f) (hgt * f)
               # replicate_each f
                   (map (\<lambda>r. PamRow (replicate_each f (take w (drop (r * w) (tuple_input s)))))
                      [0..<hgt])"
    by (simp add: hdr_def)
  moreover have "enlargeGeneral ft fr inpam f s = Inr t"
    unfolding enlargeGeneral_def Let_def pam u
    using mk loop by (simp add: s1_def)
  ultimately show ?thesis by blast
qed

lemma validated_products:
  assumes "validateComputableDimensions w hgt f = Inr ()"
  shows "w * f \<le> maxWidthHeight" "hgt * f \<le> maxWidthHeight"
proof -
  from assms have pos: "0 < max w hgt" and le: "f \<le> maxWidthHeight div max w hgt"
    by (auto simp add: validateComputableDimensions_def MAX_val_eq_max Let_def max.commute
        split: if_splits)
  then have a: "max w hgt * f \<le> maxWidthHeight"
    by (simp add: less_eq_div_iff_mult_less_eq mult.commute)
  have "w * f \<le> max w hgt * f" by (intro mult_le_mono1) simp
  then show "w * f \<le> maxWidthHeight" using a by (rule order_trans)
  have "hgt * f \<le> max w hgt * f" by (intro mult_le_mono1) simp
  then show "hgt * f \<le> maxWidthHeight" using a by (rule order_trans)
qed

lemma nth_replicate_each_block:
  assumes "r < length xs" "r * f \<le> i" "i < (r + 1) * f"
  shows "replicate_each f xs ! i = xs ! r"
proof -
  have "i div f = r" using assms(2,3) by (intro div_nat_eqI) (simp_all add: mult.commute)
  moreover have "(r + 1) * f \<le> length xs * f" using assms(1) by (intro mult_le_mono1) simp
  then have "i < f * length xs" using assms(3) by (simp add: mult.commute)
  ultimately show ?thesis by (simp add: nth_replicate_each)
qed

text \<open>
  Claim C6.  For every image of at least one row and column, every scale factor of at least
  1 that the validator accepts for it, and an input file that holds the raster, the run
  succeeds and writes, after the header, \<open>height * factor\<close> rows: for every source row
  \<open>r\<close>, the output rows \<open>i\<close> with \<open>r * factor \<le> i < (r + 1) * factor\<close> are all equal to
  one row \<open>T ! r\<close>, the transformed version of input row \<open>r\<close>.  On the packed path its
  first \<open>width * factor\<close> bits are the naive replication of the bits of input row \<open>r\<close>;
  on the generic path it is the naive replication of the tuples of input row \<open>r\<close>.
\<close>

theorem vertical_replication:
  assumes f: "1 \<le> f" and dims: "1 \<le> pam_width inpam" "1 \<le> pam_height inpam"
    and valid: "validateComputableDimensions (pam_width inpam) (pam_height inpam) f = Inr ()"
    and inp: "if pam_is_pbm inpam
              then pam_height inpam * pbm_packed_bytes (pam_width inpam) \<le> length (packed_input s)
              else pam_height inpam * pam_width inpam \<le> length (tuple_input s)"
  shows "\<exists>s' rows T.
      (if pam_is_pbm inpam then enlargePbm junk inpam f s
       else enlargeGeneral fresh_tuples fresh_row inpam f s) = Inr s'
    \<and> ofile s' = ofile s @
         (if pam_is_pbm inpam then PbmHeader (pam_width inpam * f) (pam_height inpam * f)
          else PamHeader (pam_width inpam * f) (pam_height inpam * f)) # rows
    \<and> length rows = pam_height inpam * f
    \<and> length T = pam_height inpam
    \<and> (\<forall>r < pam_height inpam. \<forall>i. r * f \<le> i \<and> i < (r + 1) * f \<longrightarrow> rows ! i = T ! r)
    \<and> (\<forall>r < pam_height inpam.
          if pam_is_pbm inpam
          then (\<exists>bytes. T ! r = PbmRow (pam_width inpam * f) bytes
                  \<and> row_bits (pam_width inpam * f) bytes
                      = replicate_each f (row_bits (pam_width inpam)
                          (take (pbm_packed_bytes (pam_width inpam))
                             (drop (r * pbm_packed_bytes (pam_width inpam)) (packed_input s)))))
          else T ! r = PamRow (replicate_each f
                          (take (pam_width inpam) (drop (r * pam_width inpam) (tuple_input s)))))"
proof -
  define w where "w = pam_width inpam"
  define hgt where "hgt = pam_height inpam"
  note vp = validated_products [OF valid, folded w_def hgt_def]
  have w1: "1 \<le> w" using dims by (simp add: w_def)
  show ?thesis
  proof (cases "pam_is_pbm inpam")
    case True
    from enlargePbm_run [OF f w1 vp, of inpam s junk] inp True
    obtain s' B where B: "enlargePbm junk inpam f s = Inr s'" "length B = hgt"
      "ofile s' = ofile s @ PbmHeader (w * f) (hgt * f) # replicate_each f (map (PbmRow (w * f)) B)"
      "\<forall>r < hgt. length (B ! r) = pbm_packed_bytes (w * f)
          \<and> row_bits (w * f) (B ! r)
              = replicate_each f (row_bits w
                  (take (pbm_packed_bytes w) (drop (r * pbm_packed_bytes w) (packed_input s))))"
      by (auto simp add: w_def hgt_def)
    define T where "T = map (PbmRow (w * f)) B"
    have lT: "length T = hgt" by (simp add: T_def B(2))
    have blocks: "\<forall>r < hgt. \<forall>i. r * f \<le> i \<and> i < (r + 1) * f \<longrightarrow> replicate_each f T ! i = T ! r"
      using lT by (auto intro: nth_replicate_each_block)
    show ?thesis
      unfolding w_def [symmetric] hgt_def [symmetric]
      using True B lT blocks
      by (intro exI [of _ s'] exI [of _ "replicate_each f T"] exI [of _ T])
         (simp add: T_def mult.commute)
  next
    case False
    from enlargeGeneral_run [OF f w1 vp, of inpam s fresh_tuples fresh_row] inp False
    obtain s' where G: "enlargeGeneral fresh_tuples fresh_row inpam f s = Inr s'"
      "ofile s' = ofile s @ PamHeader (w * f) (hgt * f)
               # replicate_each f
                   (map (\<lambda>r. PamRow (replicate_each f (take w (drop (r * w) (tuple_input s)))))
                      [0..<hgt])"
      by (auto simp add: w_def hgt_def)
    define T where "T = map (\<lambda>r. PamRow (replicate_each f (take w (drop (r * w) (tuple_input s)))))
                      [0..<hgt]"
    have lT: "length T = hgt" by (simp add: T_def)
    have blocks: "\<forall>r < hgt. \<forall>i. r * f \<le> i \<and> i < (r + 1) * f \<longrightarrow> replicate_each f T ! i = T ! r"
      using lT by (auto intro: nth_replicate_each_block)
    show ?thesis
      unfolding w_def [symmetric] hgt_def [symmetric]
      using False G lT blocks
      by (intro exI [of _ s'] exI [of _ "replicate_each f T"] exI [of _ T])
         (simp add: T_def mult.commute)
  qed
qed

theorem vertical_replication_witness:
  "(1::nat) \<le> 2
   \<and> validateComputableDimensions 3 2 2 = Inr ()
   \<and> 2 * pbm_packed_bytes 3 \<le> length [0xA0, 0x40 :: byte]
   \<and> (\<exists>s' rows T.
         enlargePbm (\<lambda>p i. 0) \<lparr>pam_width = 3, pam_height = 2, pam_is_pbm = True\<rparr> 2
           \<lparr>mem = \<lparr>cells = Map.empty, allocated = 0\<rparr>, packed_input = [0xA0, 0x40],
            tuple_input = [], tuples = [], ofile = []\<rparr> = Inr s'
       \<and> ofile s' = PbmHeader 6 4 # rows \<and> length rows = 4 \<and> length T = 2
       \<and> rows ! 2 = T ! 1 \<and> rows ! 3 = T ! 1
       \<and> (\<exists>bytes. T ! 1 = PbmRow 6 bytes
             \<and> row_bits 6 bytes = replicate_each 2 (row_bits 3 [0x40])))"
proof -
  let ?pam = "\<lparr>pam_width = 3, pam_height = 2, pam_is_pbm = True\<rparr>"
  let ?s = "\<lparr>mem = \<lparr>cells = Map.empty, allocated = 0\<rparr>, packed_input = [0xA0, 0x40 :: byte],
            tuple_input = [], tuples = [], ofile = []\<rparr>"
  have h1: "1 \<le> (2::nat)" by simp
  have h2: "1 \<le> pam_width ?pam" by simp
  have h3: "1 \<le> pam_height ?pam" by simp
  have v: "validateComputableDimensions 3 2 2 = Inr ()"
    by (simp add: validateComputableDimensions_def MAX_val_def maxWidthHeight_def INT_MAX_def)
  then have h4: "validateComputableDimensions (pam_width ?pam) (pam_height ?pam) 2 = Inr ()"
    by simp
  have p: "pbm_packed_bytes 3 = 1" by (simp add: pbm_packed_bytes_def)
  have h5: "if pam_is_pbm ?pam
            then pam_height ?pam * pbm_packed_bytes (pam_width ?pam) \<le> length (packed_input ?s)
            else pam_height ?pam * pam_width ?pam \<le> length (tuple_input ?s)"
    by (simp add: p)
  from vertical_replication [OF h1 h2 h3 h4 h5, of "\<lambda>p i. 0" "\<lambda>i. []" "\<lambda>i. 0"]
  obtain s' rows T where r: "enlargePbm (\<lambda>p i. 0) ?pam 2 ?s = Inr s'"
    "ofile s' = PbmHeader 6 4 # rows" "length rows = 4" "length T = 2"
    "\<forall>r<2. \<forall>i. r * 2 \<le> i \<and> i < (r + 1) * 2 \<longrightarrow> rows ! i = T ! r"
    "\<forall>r<2. \<exists>bytes. T ! r = PbmRow 6 bytes
        \<and> row_bits 6 bytes = replicate_each 2 (row_bits 3 (take 1 (drop r [0xA0, 0x40])))"
    by (auto simp add: p)
  from r(5) have "rows ! 2 = T ! 1" "rows ! 3 = T ! 1" by auto
  moreover from r(6) [rule_format, of 1] have "\<exists>bytes. T ! 1 = PbmRow 6 bytes
      \<and> row_bits 6 bytes = replicate_each 2 (row_bits 3 [0x40])"
    by simp
  ultimately show ?thesis using v r(1-4) by (auto simp add: p)
qed

end
